theory Spec2Isabelle
  imports Main
begin

section \<open>Data model\<close>

text \<open>
  The development follows \<^verbatim>\<open>src/src/threadedmatrixmultiplier.h\<close>: the class
  \<^verbatim>\<open>Buffer\<close> (a Hoare monitor holding the job queue and the counters of every
  computation) and the class \<^verbatim>\<open>ThreadedMatrixMultiplier\<close> (the worker threads,
  \<^verbatim>\<open>multiply\<close> and \<^verbatim>\<open>computeBlock\<close>).

  A C++ \<^verbatim>\<open>int\<close> is modelled by \<open>int\<close>. Signed overflow and division by zero
  are undefined behaviour in C++; the operations that can reach them return an
  \<open>error\<close> instead of a value, so every result below is about a defined execution.
\<close>

datatype error = DivisionByZero | SignedOverflow

definition INT_MAX :: int where
  "INT_MAX = 2147483647"

text \<open>The quotient \<^verbatim>\<open>a / b\<close> of two C++ ints: truncated towards zero.\<close>

definition idiv :: "int \<Rightarrow> int \<Rightarrow> error + int" where
  "idiv a b =
     (if b = 0 then Inl DivisionByZero
      else if a = - INT_MAX - 1 \<and> b = - 1 then Inl SignedOverflow
      else Inr (sgn a * sgn b * (\<bar>a\<bar> div \<bar>b\<bar>)))"

text \<open>The product \<^verbatim>\<open>a * b\<close> of two C++ ints.\<close>

definition imul :: "int \<Rightarrow> int \<Rightarrow> error + int" where
  "imul a b = (if - INT_MAX - 1 \<le> a * b \<and> a * b \<le> INT_MAX then Inr (a * b) else Inl SignedOverflow)"

text \<open>
  Modelled from the spec: \<^verbatim>\<open>matrix.h\<close> (the class \<^verbatim>\<open>SquareMatrix\<close>) is not among
  the sources. The matrix is used through \<^verbatim>\<open>size()\<close>, \<^verbatim>\<open>element(x, y)\<close> and
  \<^verbatim>\<open>setElement(x, y, value)\<close> only: a size and one cell for every pair of indices,
  where \<open>setElement\<close> changes the cell it names and no other.
\<close>

record 'a SquareMatrix =
  msize :: nat
  element :: "int \<Rightarrow> int \<Rightarrow> 'a"

definition setElement :: "'a SquareMatrix \<Rightarrow> int \<Rightarrow> int \<Rightarrow> 'a \<Rightarrow> 'a SquareMatrix" where
  "setElement M x y v = M\<lparr>element := (element M)(x := (element M x)(y := v))\<rparr>"

text \<open>
  Matrices live in a memory and are named by their addresses, as the pointers
  \<^verbatim>\<open>A\<close>, \<^verbatim>\<open>B\<close> and \<^verbatim>\<open>C\<close> of \<^verbatim>\<open>ComputeParameters\<close> name them
  (fields \<open>ptrA\<close>, \<open>ptrB\<close>, \<open>ptrC\<close> here).
\<close>

type_synonym addr = nat

type_synonym 'a memory = "addr \<Rightarrow> 'a SquareMatrix"

record ComputeParameters =
  ptrA :: addr
  ptrB :: addr
  ptrC :: addr
  blockI :: int
  blockJ :: int
  nbBlocksPerRow :: int
  computationId :: int

text \<open>
  The fields of \<^verbatim>\<open>Buffer\<close>. The two conditions \<^verbatim>\<open>jobAvailable\<close> and
  \<^verbatim>\<open>jobDone\<close> have no field here: the threads waiting on a condition are the
  threads whose control state says so (see \<open>wstate\<close> and \<open>cstate\<close> below).
\<close>

record Buffer =
  nbJobFinished :: int
  jobQueue :: "ComputeParameters list"
  jobsFinishedPerComputation :: "int \<rightharpoonup> int"
  totalJobsPerComputation :: "int \<rightharpoonup> int"
  nextComputationId :: int
  isTerminating :: bool

text \<open>The constructor \<^verbatim>\<open>Buffer()\<close>.\<close>

definition new_Buffer :: Buffer where
  "new_Buffer = \<lparr>nbJobFinished = 0, jobQueue = [], jobsFinishedPerComputation = Map.empty,
     totalJobsPerComputation = Map.empty, nextComputationId = 0, isTerminating = False\<rparr>"

text \<open>
  \<^verbatim>\<open>std::map::operator[]\<close>: reading \<^verbatim>\<open>m[k]\<close> yields the value stored under
  \<open>k\<close>, or 0 when there is none, and then the map holds that value under \<open>k\<close>.
\<close>

definition subscript :: "(int \<rightharpoonup> int) \<Rightarrow> int \<Rightarrow> int" where
  "subscript m k = (case m k of None \<Rightarrow> 0 | Some v \<Rightarrow> v)"

definition touch :: "(int \<rightharpoonup> int) \<Rightarrow> int \<Rightarrow> (int \<rightharpoonup> int)" where
  "touch m k = m(k \<mapsto> subscript m k)"

section \<open>The monitor procedures of Buffer\<close>

text \<open>
  A monitor procedure runs alone inside the monitor. A procedure that reaches
  \<^verbatim>\<open>wait\<close> leaves the monitor with the buffer as it is then (\<open>Wait\<close>); the
  others leave it with their result (\<open>Return\<close>). What \<^verbatim>\<open>signal\<close> does to the
  waiting threads is part of the system's step function below.
\<close>

datatype 'r monitor_exit = Wait Buffer | Return 'r Buffer

text \<open>\<^verbatim>\<open>sendJob\<close>, up to its \<^verbatim>\<open>signal(jobAvailable)\<close>.\<close>

definition sendJob :: "Buffer \<Rightarrow> ComputeParameters \<Rightarrow> Buffer" where
  "sendJob b params = b\<lparr>jobQueue := jobQueue b @ [params]\<rparr>"

text \<open>
  \<^verbatim>\<open>getJob\<close>, from the test of its \<^verbatim>\<open>while\<close> loop on: run when the procedure
  is entered and again whenever its \<^verbatim>\<open>wait\<close> returns. \<open>Return None\<close> is the result
  \<^verbatim>\<open>false\<close>, \<open>Return (Some p)\<close> the result \<^verbatim>\<open>true\<close> with the job \<open>p\<close>.
\<close>

definition getJob :: "Buffer \<Rightarrow> ComputeParameters option monitor_exit" where
  "getJob b =
     (if jobQueue b = [] \<and> \<not> isTerminating b then Wait b
      else if isTerminating b \<and> jobQueue b = [] then Return None b
      else Return (Some (hd (jobQueue b))) (b\<lparr>jobQueue := tl (jobQueue b)\<rparr>))"

text \<open>\<^verbatim>\<open>jobCompleted\<close>, up to its \<^verbatim>\<open>signal(jobDone)\<close>.\<close>

definition jobCompleted :: "Buffer \<Rightarrow> int \<Rightarrow> error + Buffer" where
  "jobCompleted b cid =
     (if nbJobFinished b = INT_MAX then Inl SignedOverflow
      else if subscript (jobsFinishedPerComputation b) cid = INT_MAX then Inl SignedOverflow
      else Inr (b\<lparr>nbJobFinished := nbJobFinished b + 1,
                  jobsFinishedPerComputation :=
                    (jobsFinishedPerComputation b)
                      (cid \<mapsto> subscript (jobsFinishedPerComputation b) cid + 1)\<rparr>))"

text \<open>\<^verbatim>\<open>startNewComputation\<close>: the identifier it returns and the buffer it leaves.\<close>

definition startNewComputation :: "Buffer \<Rightarrow> int \<Rightarrow> error + (int \<times> Buffer)" where
  "startNewComputation b totalJobs =
     (if nextComputationId b = INT_MAX then Inl SignedOverflow
      else Inr (nextComputationId b,
             b\<lparr>nextComputationId := nextComputationId b + 1,
               jobsFinishedPerComputation := (jobsFinishedPerComputation b)(nextComputationId b \<mapsto> 0),
               totalJobsPerComputation := (totalJobsPerComputation b)(nextComputationId b \<mapsto> totalJobs)\<rparr>))"

text \<open>
  \<^verbatim>\<open>waitAllJobsDone\<close> in two parts. \<open>waitAllJobsDone_enter\<close> is the first
  statement, which reads \<^verbatim>\<open>totalJobsPerComputation[computationId]\<close> into the local
  \<^verbatim>\<open>totalJobs\<close>. \<open>waitAllJobsDone_loop\<close> is the rest from the test of the
  \<^verbatim>\<open>while\<close> loop on, run after the first statement and again whenever the
  \<^verbatim>\<open>wait\<close> returns: it reads \<^verbatim>\<open>jobsFinishedPerComputation[computationId]\<close>,
  and either waits or erases both entries and returns.
\<close>

definition waitAllJobsDone_enter :: "Buffer \<Rightarrow> int \<Rightarrow> int \<times> Buffer" where
  "waitAllJobsDone_enter b cid =
     (subscript (totalJobsPerComputation b) cid,
      b\<lparr>totalJobsPerComputation := touch (totalJobsPerComputation b) cid\<rparr>)"

definition waitAllJobsDone_loop :: "Buffer \<Rightarrow> int \<Rightarrow> int \<Rightarrow> unit monitor_exit" where
  "waitAllJobsDone_loop b cid totalJobs =
     (let b1 = b\<lparr>jobsFinishedPerComputation := touch (jobsFinishedPerComputation b) cid\<rparr>
      in if subscript (jobsFinishedPerComputation b) cid < totalJobs then Wait b1
         else Return () (b1\<lparr>jobsFinishedPerComputation := (jobsFinishedPerComputation b1)(cid := None),
                             totalJobsPerComputation := (totalJobsPerComputation b1)(cid := None)\<rparr>))"

definition waitAllJobsDone :: "Buffer \<Rightarrow> int \<Rightarrow> unit monitor_exit" where
  "waitAllJobsDone b cid =
     (case waitAllJobsDone_enter b cid of (totalJobs, b1) \<Rightarrow> waitAllJobsDone_loop b1 cid totalJobs)"

text \<open>
  \<^verbatim>\<open>terminate\<close>: its first monitor section sets the flag; the 100 sections that
  follow each perform one \<^verbatim>\<open>signal(jobAvailable)\<close>.
\<close>

definition terminate_flag :: "Buffer \<Rightarrow> Buffer" where
  "terminate_flag b = b\<lparr>isTerminating := True\<rparr>"

definition terminate_signals :: int where
  "terminate_signals = 100"

section \<open>The block kernel\<close>

text \<open>The indices of \<^verbatim>\<open>for (x = b * blockSize; x < (b + 1) * blockSize; ++x)\<close>.\<close>

definition block_range :: "int \<Rightarrow> int \<Rightarrow> int list" where
  "block_range b blockSize = [b * blockSize .. (b + 1) * blockSize - 1]"

text \<open>
  The two inner loops of \<^verbatim>\<open>computeBlock\<close>: \<^verbatim>\<open>sum\<close> starts at 0 and receives
  \<^verbatim>\<open>A->element(k, i) * B->element(j, k)\<close> for every \<open>k\<close> of every block
  \<open>blockK\<close>, in the order of the loops. The element type needs 0, + and * only.
\<close>

definition block_sum :: "('a::{zero,plus,times}) memory \<Rightarrow> ComputeParameters \<Rightarrow> int \<Rightarrow> int \<Rightarrow> int \<Rightarrow> 'a" where
  "block_sum m params blockSize i j =
     foldl (\<lambda>sum blockK.
         foldl (\<lambda>sum k. sum + element (m (ptrA params)) k i * element (m (ptrB params)) j k)
           sum (block_range blockK blockSize))
       0 [0 .. nbBlocksPerRow params - 1]"

definition computeBlock :: "('a::{zero,plus,times}) memory \<Rightarrow> ComputeParameters \<Rightarrow> error + 'a memory" where
  "computeBlock m params =
     (case idiv (int (msize (m (ptrA params)))) (nbBlocksPerRow params) of
        Inl e \<Rightarrow> Inl e
      | Inr blockSize \<Rightarrow>
          Inr (foldl (\<lambda>m i.
                 foldl (\<lambda>m j. m(ptrC params :=
                          setElement (m (ptrC params)) j i (block_sum m params blockSize i j)))
                   m (block_range (blockJ params) blockSize))
               m (block_range (blockI params) blockSize)))"

text \<open>The first loop nest of \<^verbatim>\<open>multiply\<close>: \<^verbatim>\<open>C.setElement(i, j, 0)\<close> for all \<open>i, j < n\<close>.\<close>

definition zero_fill :: "('a::zero) memory \<Rightarrow> addr \<Rightarrow> int \<Rightarrow> 'a memory" where
  "zero_fill m c n =
     foldl (\<lambda>m i. foldl (\<lambda>m j. m(c := setElement (m c) i j 0)) m [0 .. n - 1]) m [0 .. n - 1]"

section \<open>The threads\<close>

text \<open>
  A worker runs \<^verbatim>\<open>workerThread\<close>: it is about to call \<^verbatim>\<open>getJob\<close>, or waits on
  \<^verbatim>\<open>jobAvailable\<close> inside it, or holds a job it is about to compute, or has computed
  the job and is about to call \<^verbatim>\<open>jobCompleted\<close>, or has left its loop.
\<close>

datatype wstate =
    W_GetJob
  | W_Blocked
  | W_Compute ComputeParameters
  | W_Report ComputeParameters
  | W_Exited

text \<open>
  A call of \<^verbatim>\<open>multiply(A, B, C, nbBlocksPerRow)\<close>: about to start; \<open>C\<close> zeroed and
  about to call \<^verbatim>\<open>startNewComputation\<close>; inside the two loops that send the jobs, with
  the identifier and the loop variables \<open>blockI\<close>, \<open>blockJ\<close>; about to call
  \<^verbatim>\<open>waitAllJobsDone\<close>; waiting on \<^verbatim>\<open>jobDone\<close> inside it, with the identifier
  and the local \<^verbatim>\<open>totalJobs\<close>; returned.
\<close>

datatype cstate =
    M_Start addr addr addr int
  | M_Register addr addr addr int
  | M_Send addr addr addr int int int int
  | M_Wait int
  | M_Blocked int int
  | M_Returned

text \<open>
  The destructor: about to run the first section of \<^verbatim>\<open>terminate\<close>; in its loop with
  the counter \<open>i\<close>; joining the threads; done.
\<close>

datatype dstate = D_Terminate | D_Signal int | D_Join | D_Done

record 'a system =
  nbThreads :: int
  defaultNbBlocksPerRow :: int
  buffer :: Buffer
  threads :: "wstate list"
  calls :: "cstate list"
  destructor :: dstate
  mem :: "'a memory"

text \<open>
  The constructor \<^verbatim>\<open>ThreadedMatrixMultiplier(nbThreads, nbBlocksPerRow = 0)\<close> starts
  the workers; \<open>m\<close> is the memory that holds the matrices of the clients. No call of
  \<^verbatim>\<open>multiply\<close> has been made yet.
\<close>

definition ThreadedMatrixMultiplier :: "int \<Rightarrow> int \<Rightarrow> 'a memory \<Rightarrow> 'a system" where
  "ThreadedMatrixMultiplier n d m =
     \<lparr>nbThreads = n, defaultNbBlocksPerRow = d, buffer = new_Buffer,
      threads = replicate (nat n) W_GetJob, calls = [], destructor = D_Terminate, mem = m\<rparr>"

definition ThreadedMatrixMultiplier_default :: "int \<Rightarrow> 'a memory \<Rightarrow> 'a system" where
  "ThreadedMatrixMultiplier_default n m = ThreadedMatrixMultiplier n 0 m"

text \<open>
  The two overloads of \<^verbatim>\<open>multiply\<close>: a client thread enters the call and is about to
  run its body. The overload without \<^verbatim>\<open>nbBlocksPerRow\<close> passes the field of the
  engine on.
\<close>

definition multiply :: "addr \<Rightarrow> addr \<Rightarrow> addr \<Rightarrow> int \<Rightarrow> 'a system \<Rightarrow> 'a system" where
  "multiply a b c d s = s\<lparr>calls := calls s @ [M_Start a b c d]\<rparr>"

definition multiply3 :: "addr \<Rightarrow> addr \<Rightarrow> addr \<Rightarrow> 'a system \<Rightarrow> 'a system" where
  "multiply3 a b c s = multiply a b c (defaultNbBlocksPerRow s) s"

section \<open>The steps of the system\<close>

text \<open>
  One step is one thread running up to the end of its next monitor section (or, outside
  the monitor, through \<^verbatim>\<open>computeBlock\<close> or the zeroing of \<open>C\<close>). The monitor is a
  Hoare monitor: \<^verbatim>\<open>signal\<close> on a condition nobody waits on does nothing; otherwise
  one waiting thread resumes at once, right after its \<^verbatim>\<open>wait\<close>, and runs to the end
  of its own section before anything else happens. An event names the thread that moves
  and the waiting thread that a signal of this step resumes; a client entering one of
  the overloads of \<^verbatim>\<open>multiply\<close> is an event too.
\<close>

datatype event =
    Worker nat nat
  | Caller nat nat
  | Destructor nat
  | Call addr addr addr int
  | Call3 addr addr addr

datatype 'a outcome = Next 'a | Disabled | Undefined error

text \<open>\<^verbatim>\<open>signal(jobAvailable)\<close>: the worker \<open>w\<close> resumes inside \<^verbatim>\<open>getJob\<close>.\<close>

definition signal_jobAvailable :: "nat \<Rightarrow> 'a system \<Rightarrow> 'a system option" where
  "signal_jobAvailable w s =
     (if W_Blocked \<notin> set (threads s) then Some s
      else if w < length (threads s) \<and> threads s ! w = W_Blocked then
        (case getJob (buffer s) of
           Wait b \<Rightarrow> Some (s\<lparr>buffer := b\<rparr>)
         | Return None b \<Rightarrow> Some (s\<lparr>buffer := b, threads := (threads s)[w := W_Exited]\<rparr>)
         | Return (Some p) b \<Rightarrow> Some (s\<lparr>buffer := b, threads := (threads s)[w := W_Compute p]\<rparr>))
      else None)"

text \<open>\<^verbatim>\<open>signal(jobDone)\<close>: the call \<open>c\<close> resumes inside \<^verbatim>\<open>waitAllJobsDone\<close>.\<close>

definition is_blocked_call :: "cstate \<Rightarrow> bool" where
  "is_blocked_call c = (case c of M_Blocked cid totalJobs \<Rightarrow> True | _ \<Rightarrow> False)"

definition signal_jobDone :: "nat \<Rightarrow> 'a system \<Rightarrow> 'a system option" where
  "signal_jobDone c s =
     (if \<not> list_ex is_blocked_call (calls s) then Some s
      else if c < length (calls s) then
        (case calls s ! c of
           M_Blocked cid totalJobs \<Rightarrow>
             (case waitAllJobsDone_loop (buffer s) cid totalJobs of
                Wait b \<Rightarrow> Some (s\<lparr>buffer := b\<rparr>)
              | Return u b \<Rightarrow> Some (s\<lparr>buffer := b, calls := (calls s)[c := M_Returned]\<rparr>))
         | _ \<Rightarrow> None)
      else None)"

definition of_option :: "'a option \<Rightarrow> 'a outcome" where
  "of_option x = (case x of None \<Rightarrow> Disabled | Some s \<Rightarrow> Next s)"

text \<open>One turn of the loop of \<^verbatim>\<open>workerThread\<close>, a monitor section at a time.\<close>

definition workerThread :: "nat \<Rightarrow> nat \<Rightarrow> ('a::{zero,plus,times}) system \<Rightarrow> 'a system outcome" where
  "workerThread w k s =
     (if w < length (threads s) then
        (case threads s ! w of
           W_GetJob \<Rightarrow>
             (case getJob (buffer s) of
                Wait b \<Rightarrow> Next (s\<lparr>buffer := b, threads := (threads s)[w := W_Blocked]\<rparr>)
              | Return None b \<Rightarrow> Next (s\<lparr>buffer := b, threads := (threads s)[w := W_Exited]\<rparr>)
              | Return (Some p) b \<Rightarrow> Next (s\<lparr>buffer := b, threads := (threads s)[w := W_Compute p]\<rparr>))
         | W_Blocked \<Rightarrow> Disabled
         | W_Compute p \<Rightarrow>
             (case computeBlock (mem s) p of
                Inl e \<Rightarrow> Undefined e
              | Inr m \<Rightarrow> Next (s\<lparr>mem := m, threads := (threads s)[w := W_Report p]\<rparr>))
         | W_Report p \<Rightarrow>
             (case jobCompleted (buffer s) (computationId p) of
                Inl e \<Rightarrow> Undefined e
              | Inr b \<Rightarrow> of_option (signal_jobDone k (s\<lparr>buffer := b, threads := (threads s)[w := W_GetJob]\<rparr>)))
         | W_Exited \<Rightarrow> Disabled)
      else Disabled)"

text \<open>
  The body of \<^verbatim>\<open>multiply\<close>, a section at a time. The loop variables of the sending
  loops advance as the two \<^verbatim>\<open>for\<close> statements do.
\<close>

definition next_send :: "addr \<Rightarrow> addr \<Rightarrow> addr \<Rightarrow> int \<Rightarrow> int \<Rightarrow> int \<Rightarrow> int \<Rightarrow> cstate" where
  "next_send a b c d cid bi bj =
     (if bj + 1 < d then M_Send a b c d cid bi (bj + 1)
      else if bi + 1 < d then M_Send a b c d cid (bi + 1) 0
      else M_Wait cid)"

definition multiply_step :: "nat \<Rightarrow> nat \<Rightarrow> ('a::{zero,plus,times}) system \<Rightarrow> 'a system outcome" where
  "multiply_step c k s =
     (if c < length (calls s) then
        (case calls s ! c of
           M_Start a b cc d \<Rightarrow>
             (case idiv (int (msize (mem s a))) d of
                Inl e \<Rightarrow> Undefined e
              | Inr blockSize \<Rightarrow>
                 (case imul d d of
                    Inl e \<Rightarrow> Undefined e
                  | Inr totalBlocks \<Rightarrow>
                      Next (s\<lparr>mem := zero_fill (mem s) cc (int (msize (mem s a))),
                               calls := (calls s)[c := M_Register a b cc d]\<rparr>)))
         | M_Register a b cc d \<Rightarrow>
             (case startNewComputation (buffer s) (d * d) of
                Inl e \<Rightarrow> Undefined e
              | Inr (cid, bf) \<Rightarrow>
                  Next (s\<lparr>buffer := bf,
                           calls := (calls s)[c := (if 0 < d then M_Send a b cc d cid 0 0 else M_Wait cid)]\<rparr>))
         | M_Send a b cc d cid bi bj \<Rightarrow>
             of_option (signal_jobAvailable k
               (s\<lparr>buffer := sendJob (buffer s)
                     \<lparr>ptrA = a, ptrB = b, ptrC = cc, blockI = bi, blockJ = bj,
                      nbBlocksPerRow = d, computationId = cid\<rparr>,
                   calls := (calls s)[c := next_send a b cc d cid bi bj]\<rparr>))
         | M_Wait cid \<Rightarrow>
             (case waitAllJobsDone (buffer s) cid of
                Wait bf \<Rightarrow>
                  Next (s\<lparr>buffer := bf,
                           calls := (calls s)[c := M_Blocked cid (subscript (totalJobsPerComputation (buffer s)) cid)]\<rparr>)
              | Return u bf \<Rightarrow> Next (s\<lparr>buffer := bf, calls := (calls s)[c := M_Returned]\<rparr>))
         | M_Blocked cid totalJobs \<Rightarrow> Disabled
         | M_Returned \<Rightarrow> Disabled)
      else Disabled)"

text \<open>
  The destructor: \<^verbatim>\<open>terminate\<close> (the flag, then the signals of its loop), then the
  joins, which return once every worker has left its loop.
\<close>

definition destructor_step :: "nat \<Rightarrow> 'a system \<Rightarrow> 'a system outcome" where
  "destructor_step k s =
     (case destructor s of
        D_Terminate \<Rightarrow>
          Next (s\<lparr>buffer := terminate_flag (buffer s),
                   destructor := (if 0 < terminate_signals then D_Signal 0 else D_Join)\<rparr>)
      | D_Signal i \<Rightarrow>
          of_option (signal_jobAvailable k
            (s\<lparr>destructor := (if i + 1 < terminate_signals then D_Signal (i + 1) else D_Join)\<rparr>))
      | D_Join \<Rightarrow> (if list_all (\<lambda>t. t = W_Exited) (threads s) then Next (s\<lparr>destructor := D_Done\<rparr>) else Disabled)
      | D_Done \<Rightarrow> Disabled)"

fun step :: "event \<Rightarrow> ('a::{zero,plus,times}) system \<Rightarrow> 'a system outcome" where
  "step (Worker w k) s = workerThread w k s"
| "step (Caller c k) s = multiply_step c k s"
| "step (Destructor k) s = destructor_step k s"
| "step (Call a b c d) s = Next (multiply a b c d s)"
| "step (Call3 a b c) s = Next (multiply3 a b c s)"

text \<open>A schedule is run event by event; it stops at the first event that cannot happen.\<close>

fun run :: "event list \<Rightarrow> ('a::{zero,plus,times}) system \<Rightarrow> 'a system outcome" where
  "run [] s = Next s"
| "run (e # es) s = (case step e s of Next s' \<Rightarrow> run es s' | Disabled \<Rightarrow> Disabled | Undefined x \<Rightarrow> Undefined x)"

section \<open>Examples\<close>

text \<open>
  A memory of integer matrices of size 2: \<open>A\<close> at address 0, \<open>B\<close> at address 1 and the
  result \<open>C\<close> at address 2.
\<close>

definition example_memory :: "int memory" where
  "example_memory = (\<lambda>a. \<lparr>msize = 2,
     element = (\<lambda>x y. if a = 0 then x + 2 * y + 1 else if a = 1 then x * y + 2 else 7)\<rparr>)"

text \<open>
  A memory of integer matrices of size 1, \<open>A = (3)\<close> at address 0, \<open>B = (5)\<close> at address 1
  and \<open>C = (7)\<close> at address 2, and a schedule of one call with the grid dimension 1 on an
  engine of two workers: worker 0 finds the queue empty and waits; the call zeroes \<open>C\<close>,
  registers its computation and sends its job, which wakes worker 0, and then waits for
  its job; worker 0 computes the block and reports it, which wakes the call.
\<close>

definition tiny_memory :: "int memory" where
  "tiny_memory = (\<lambda>a. \<lparr>msize = 1, element = (\<lambda>x y. if a = 0 then 3 else if a = 1 then 5 else 7)\<rparr>)"



text \<open>
  Two clients enter \<^verbatim>\<open>multiply\<close>, both calls zero \<open>C\<close>, then the second call registers its
  computation and the first call does after it.
\<close>

definition two_calls :: "event list" where
  "two_calls = [Call 0 1 2 1, Call 0 1 2 1, Caller 0 0, Caller 1 0, Caller 1 0, Caller 0 0]"

text \<open>
  A client enters \<^verbatim>\<open>multiply\<close>; the call zeroes \<open>C\<close>, registers and sends its job; then
  the destructor sets the flag of \<^verbatim>\<open>terminate\<close>, with the job still in the queue.
\<close>

definition drain_schedule :: "event list" where
  "drain_schedule = [Call 0 1 2 1, Caller 0 0, Caller 0 0, Caller 0 0, Destructor 0]"

text \<open>
  On an engine of \<open>n\<close> workers with nothing to do, each worker calls \<^verbatim>\<open>getJob\<close> and waits.
  The destructor then runs \<^verbatim>\<open>terminate\<close>: the flag, and the 100 signals, the \<open>i\<close>-th of which
  wakes worker \<open>i\<close>.
\<close>

definition idle_schedule :: "nat \<Rightarrow> event list" where
  "idle_schedule n = map (\<lambda>w. Worker w 0) [0..<n]"

definition terminate_schedule :: "event list" where
  "terminate_schedule = Destructor 0 # map Destructor [0..<100]"

section \<open>The result of a call and the state of the engine during it\<close>


text \<open>
  What the innermost loops of \<^verbatim>\<open>computeBlock\<close> leave in \<^verbatim>\<open>sum\<close> for the cell
  \<^verbatim>\<open>(x, y)\<close> when \<open>k\<close> runs from 0 to \<open>len - 1\<close>: the additions are made from the left,
  starting at 0, in the order of \<open>k\<close>.
\<close>

definition kernel_value :: "('a::{zero,plus,times}) SquareMatrix \<Rightarrow> 'a SquareMatrix \<Rightarrow> int \<Rightarrow> int \<Rightarrow> int \<Rightarrow> 'a" where
  "kernel_value MA MB len x y = foldl (\<lambda>sum k. sum + element MA k y * element MB x k) 0 [0 .. len - 1]"

text \<open>
  The engine is quiescent when nothing is in flight: the queue is empty, every worker
  is about to call \<^verbatim>\<open>getJob\<close> or waits in it, every call of \<^verbatim>\<open>multiply\<close> made so far has
  returned and the destructor has not begun.
\<close>

definition quiescent :: "'a system \<Rightarrow> bool" where
  "quiescent s \<longleftrightarrow>
     jobQueue (buffer s) = [] \<and> \<not> isTerminating (buffer s) \<and> destructor s = D_Terminate \<and>
     list_all (\<lambda>t. t = W_GetJob \<or> t = W_Blocked) (threads s) \<and>
     list_all (\<lambda>c. c = M_Returned) (calls s)"

text \<open>The events of the engine at work: the steps of the workers and of the calls.\<close>

definition engine_event :: "event \<Rightarrow> bool" where
  "engine_event e = (case e of Worker w k \<Rightarrow> True | Caller c k \<Rightarrow> True | _ \<Rightarrow> False)"

text \<open>The job a worker holds, and the jobs of the grid of one call.\<close>

definition holds :: "wstate \<Rightarrow> bool" where
  "holds t = (case t of W_Compute p \<Rightarrow> True | W_Report p \<Rightarrow> True | _ \<Rightarrow> False)"

definition held :: "wstate \<Rightarrow> ComputeParameters option" where
  "held t = (case t of W_Compute p \<Rightarrow> Some p | W_Report p \<Rightarrow> Some p | _ \<Rightarrow> None)"

definition job :: "addr \<Rightarrow> addr \<Rightarrow> addr \<Rightarrow> int \<Rightarrow> int \<Rightarrow> int \<Rightarrow> int \<Rightarrow> ComputeParameters" where
  "job a b c d cid bi bj =
     \<lparr>ptrA = a, ptrB = b, ptrC = c, blockI = bi, blockJ = bj, nbBlocksPerRow = d, computationId = cid\<rparr>"

definition legit :: "addr \<Rightarrow> addr \<Rightarrow> addr \<Rightarrow> int \<Rightarrow> int \<Rightarrow> ComputeParameters \<Rightarrow> bool" where
  "legit a b c d cid p \<longleftrightarrow> (\<exists>bi bj. 0 \<le> bi \<and> bi < d \<and> 0 \<le> bj \<and> bj < d \<and> p = job a b c d cid bi bj)"

text \<open>How many jobs the call has sent, and whether the job of a block is among them.\<close>

definition nsent :: "int \<Rightarrow> cstate \<Rightarrow> int" where
  "nsent d cs = (case cs of M_Start a b c d' \<Rightarrow> 0 | M_Register a b c d' \<Rightarrow> 0
     | M_Send a b c d' cid bi bj \<Rightarrow> bi * d + bj | _ \<Rightarrow> d * d)"

definition is_sent :: "cstate \<Rightarrow> int \<Rightarrow> int \<Rightarrow> bool" where
  "is_sent cs bi' bj' = (case cs of M_Start a b c d' \<Rightarrow> False | M_Register a b c d' \<Rightarrow> False
     | M_Send a b c d' cid bi bj \<Rightarrow> bi' < bi \<or> (bi' = bi \<and> bj' < bj) | _ \<Rightarrow> True)"

definition registered :: "cstate \<Rightarrow> bool" where
  "registered cs = (case cs of M_Send a b c d cid bi bj \<Rightarrow> True | M_Wait cid \<Rightarrow> True | M_Blocked cid t \<Rightarrow> True | _ \<Rightarrow> False)"

text \<open>The shape of the state of the call, given where it started.\<close>

definition call_ok :: "addr \<Rightarrow> addr \<Rightarrow> addr \<Rightarrow> int \<Rightarrow> int \<Rightarrow> cstate \<Rightarrow> bool" where
  "call_ok a b c d cid cs = (case cs of
       M_Start a' b' c' d' \<Rightarrow> a' = a \<and> b' = b \<and> c' = c \<and> d' = d
     | M_Register a' b' c' d' \<Rightarrow> a' = a \<and> b' = b \<and> c' = c \<and> d' = d
     | M_Send a' b' c' d' cid' bi bj \<Rightarrow> a' = a \<and> b' = b \<and> c' = c \<and> d' = d \<and> cid' = cid \<and>
          0 \<le> bi \<and> bi < d \<and> 0 \<le> bj \<and> bj < d
     | M_Wait cid' \<Rightarrow> cid' = cid
     | M_Blocked cid' t \<Rightarrow> cid' = cid \<and> t = d * d
     | M_Returned \<Rightarrow> True)"

definition started :: "cstate \<Rightarrow> bool" where
  "started cs = (case cs of M_Start a b c d \<Rightarrow> False | _ \<Rightarrow> True)"

text \<open>
  The invariants of one call \<^verbatim>\<open>multiply(A, B, C, d)\<close> that started in a quiescent
  engine, as call number \<open>c0\<close>, with the identifier \<open>cid\<close> and the memory \<open>m0\<close>, when
  \<^verbatim>\<open>nbJobFinished\<close> was \<open>f0\<close>: the shape of the state, the counters of the buffer, and
  the cells of \<open>C\<close>.
\<close>

definition inv_struct :: "addr \<Rightarrow> addr \<Rightarrow> addr \<Rightarrow> int \<Rightarrow> int \<Rightarrow> nat \<Rightarrow> 'a memory \<Rightarrow> 'a system \<Rightarrow> bool" where
  "inv_struct a b c d cid c0 m0 s \<longleftrightarrow>
     length (calls s) = Suc c0 \<and>
     (\<forall>i < c0. calls s ! i = M_Returned) \<and>
     call_ok a b c d cid (calls s ! c0) \<and>
     destructor s = D_Terminate \<and> \<not> isTerminating (buffer s) \<and>
     (\<forall>x. x \<noteq> c \<longrightarrow> mem s x = m0 x) \<and>
     W_Exited \<notin> set (threads s) \<and>
     (W_Blocked \<in> set (threads s) \<longrightarrow> jobQueue (buffer s) = []) \<and>
     (\<forall>p \<in> set (jobQueue (buffer s)). legit a b c d cid p) \<and>
     (\<forall>t \<in> set (threads s). \<forall>p. held t = Some p \<longrightarrow> legit a b c d cid p)"

definition inv_count :: "int \<Rightarrow> int \<Rightarrow> nat \<Rightarrow> int \<Rightarrow> 'a system \<Rightarrow> bool" where
  "inv_count d cid c0 f0 s \<longleftrightarrow>
     f0 \<le> nbJobFinished (buffer s) \<and>
     int (length (jobQueue (buffer s))) + int (length (filter holds (threads s))) +
        (nbJobFinished (buffer s) - f0) = nsent d (calls s ! c0) \<and>
     (registered (calls s ! c0) \<longrightarrow>
         totalJobsPerComputation (buffer s) cid = Some (d * d) \<and>
         jobsFinishedPerComputation (buffer s) cid = Some (nbJobFinished (buffer s) - f0)) \<and>
     (\<not> started (calls s ! c0) \<or> (\<exists>a b c d. calls s ! c0 = M_Register a b c d) \<longrightarrow>
         nextComputationId (buffer s) = cid) \<and>
     (\<forall>t. calls s ! c0 = M_Blocked cid t \<longrightarrow> nbJobFinished (buffer s) - f0 < d * d) \<and>
     (calls s ! c0 = M_Returned \<longrightarrow> nbJobFinished (buffer s) - f0 = d * d)"

text \<open>The cells of one block hold what the kernel computes; the cells that no block covers are zero.\<close>

definition block_done :: "int \<Rightarrow> int \<Rightarrow> ('a::{zero,plus,times}) SquareMatrix \<Rightarrow> 'a SquareMatrix \<Rightarrow>
    'a SquareMatrix \<Rightarrow> int \<Rightarrow> int \<Rightarrow> bool" where
  "block_done n d MA MB M bi bj \<longleftrightarrow>
     (\<forall>x y. bj * (n div d) \<le> x \<and> x < (bj + 1) * (n div d) \<and>
            bi * (n div d) \<le> y \<and> y < (bi + 1) * (n div d) \<longrightarrow>
        element M x y = kernel_value MA MB (d * (n div d)) x y)"

definition outside_zero :: "int \<Rightarrow> int \<Rightarrow> ('a::zero) SquareMatrix \<Rightarrow> bool" where
  "outside_zero n d M \<longleftrightarrow>
     (\<forall>x y. 0 \<le> x \<and> x < n \<and> 0 \<le> y \<and> y < n \<and> (d * (n div d) \<le> x \<or> d * (n div d) \<le> y) \<longrightarrow>
        element M x y = 0)"

definition inv_cells :: "addr \<Rightarrow> addr \<Rightarrow> addr \<Rightarrow> int \<Rightarrow> int \<Rightarrow> nat \<Rightarrow> int \<Rightarrow>
    ('a::{zero,plus,times}) SquareMatrix \<Rightarrow> 'a SquareMatrix \<Rightarrow> 'a system \<Rightarrow> bool" where
  "inv_cells a b c d cid c0 n MA MB s \<longleftrightarrow>
     (started (calls s ! c0) \<longrightarrow> outside_zero n d (mem s c)) \<and>
     (\<forall>bi bj. 0 \<le> bi \<and> bi < d \<and> 0 \<le> bj \<and> bj < d \<and> is_sent (calls s ! c0) bi bj \<and>
          job a b c d cid bi bj \<notin> set (jobQueue (buffer s)) \<and>
          W_Compute (job a b c d cid bi bj) \<notin> set (threads s) \<longrightarrow>
          block_done n d MA MB (mem s c) bi bj)"

text \<open>
  The work that is left: every step of a worker or of the call makes it smaller, so it
  bounds the number of steps that can still happen.
\<close>

definition wweight :: "wstate \<Rightarrow> int" where
  "wweight t = (case t of W_GetJob \<Rightarrow> 1 | W_Blocked \<Rightarrow> 0 | W_Compute p \<Rightarrow> 3 | W_Report p \<Rightarrow> 2 | W_Exited \<Rightarrow> 0)"

definition cweight :: "int \<Rightarrow> cstate \<Rightarrow> int" where
  "cweight d cs = (case cs of M_Start a b c d' \<Rightarrow> 4 * (d * d) + 3 | M_Register a b c d' \<Rightarrow> 4 * (d * d) + 2
     | M_Blocked cid t \<Rightarrow> 0 | M_Returned \<Rightarrow> 0 | _ \<Rightarrow> 4 * (d * d - nsent d cs) + 1)"

definition work_left :: "int \<Rightarrow> nat \<Rightarrow> 'a system \<Rightarrow> int" where
  "work_left d c0 s = cweight d (calls s ! c0) + sum_list (map wweight (threads s)) +
     3 * int (length (jobQueue (buffer s)))"

section \<open>The identifiers handed out along a schedule\<close>

text \<open>
  The only call of \<^verbatim>\<open>startNewComputation\<close> is the one in \<^verbatim>\<open>multiply\<close>: a step hands out
  an identifier when it is the step of a call that is about to register its
  computation. \<open>issued es s\<close> lists the identifiers handed out along the schedule \<open>es\<close>
  from the state \<open>s\<close>, in the order in which they are handed out.
\<close>

definition issued_by :: "event \<Rightarrow> ('a::{zero,plus,times}) system \<Rightarrow> int list" where
  "issued_by e s =
     (case e of
        Caller c k \<Rightarrow>
          (if c < length (calls s) then
             (case calls s ! c of
                M_Register a b cc d \<Rightarrow>
                  (case startNewComputation (buffer s) (d * d) of
                     Inl x \<Rightarrow> []
                   | Inr (cid, bf) \<Rightarrow> [cid])
              | _ \<Rightarrow> [])
           else [])
      | _ \<Rightarrow> [])"

fun issued :: "event list \<Rightarrow> ('a::{zero,plus,times}) system \<Rightarrow> int list" where
  "issued [] s = []"
| "issued (e # es) s = (case step e s of Next s' \<Rightarrow> issued_by e s @ issued es s' | _ \<Rightarrow> [])"

section \<open>The jobs in flight\<close>

text \<open>
  How often the job \<open>p\<close> is in flight: in the queue, or in the hands of a worker that
  has taken it and has not yet reported it.
\<close>

definition pending :: "ComputeParameters \<Rightarrow> 'a system \<Rightarrow> int" where
  "pending p s = int (length (filter (\<lambda>q. q = p) (jobQueue (buffer s)))) +
     int (length (filter (\<lambda>t. held t = Some p) (threads s)))"

text \<open>
  The step \<open>e\<close> enqueues \<open>p\<close> when it is the turn of the sending loops of a call that
  builds \<open>p\<close> and passes it to \<^verbatim>\<open>sendJob\<close>; it completes \<open>p\<close> when it is the call of
  \<^verbatim>\<open>jobCompleted\<close> by a worker that has run \<^verbatim>\<open>computeBlock\<close> on \<open>p\<close>.
\<close>

definition enqueues :: "event \<Rightarrow> 'a system \<Rightarrow> ComputeParameters \<Rightarrow> bool" where
  "enqueues e s p =
     (case e of
        Caller c k \<Rightarrow> c < length (calls s) \<and>
          (case calls s ! c of
             M_Send a b cc d cid bi bj \<Rightarrow>
               p = \<lparr>ptrA = a, ptrB = b, ptrC = cc, blockI = bi, blockJ = bj,
                     nbBlocksPerRow = d, computationId = cid\<rparr>
           | _ \<Rightarrow> False)
      | _ \<Rightarrow> False)"

definition completes :: "event \<Rightarrow> 'a system \<Rightarrow> ComputeParameters \<Rightarrow> bool" where
  "completes e s p =
     (case e of Worker w k \<Rightarrow> w < length (threads s) \<and> threads s ! w = W_Report p | _ \<Rightarrow> False)"

text \<open>No worker waits in \<^verbatim>\<open>getJob\<close> while the queue holds a job.\<close>

definition no_sleeper :: "'a system \<Rightarrow> bool" where
  "no_sleeper s \<longleftrightarrow> jobQueue (buffer s) = [] \<or> W_Blocked \<notin> set (threads s)"

section \<open>The workers that wait and the signals of terminate\<close>

text \<open>The number of workers that wait in \<^verbatim>\<open>getJob\<close>.\<close>

definition sleepers :: "'a system \<Rightarrow> int" where
  "sleepers s = int (length (filter (\<lambda>t. t = W_Blocked) (threads s)))"

text \<open>
  The number of times the destructor will still perform \<^verbatim>\<open>signal(jobAvailable)\<close>: the
  loop of \<^verbatim>\<open>terminate\<close> performs it for \<open>i = 0, \<dots>, 99\<close>.
\<close>

definition signals_left :: "dstate \<Rightarrow> int" where
  "signals_left ds =
     (case ds of
        D_Terminate \<Rightarrow> (if 0 < terminate_signals then terminate_signals else 0)
      | D_Signal i \<Rightarrow> (if i + 1 < terminate_signals then terminate_signals - i else 1)
      | D_Join \<Rightarrow> 0
      | D_Done \<Rightarrow> 0)"

text \<open>
  The teardown of an engine on which no call of \<^verbatim>\<open>multiply\<close> is in flight: the workers
  and the destructor move, no client enters \<^verbatim>\<open>multiply\<close>, and the destructor is done only
  when every worker has left its loop.
\<close>

definition teardown_event :: "event \<Rightarrow> bool" where
  "teardown_event e = (case e of Worker w k \<Rightarrow> True | Destructor k \<Rightarrow> True | _ \<Rightarrow> False)"

definition teardown_ok :: "'a system \<Rightarrow> bool" where
  "teardown_ok s \<longleftrightarrow>
     list_all (\<lambda>c. c = M_Returned) (calls s) \<and>
     (destructor s = D_Done \<longrightarrow> list_all (\<lambda>t. t = W_Exited) (threads s))"

section \<open>Schedules, and the field that holds the default grid dimension\<close>

lemma run_append:
  "run (es @ fs) s =
     (case run es s of Next s' \<Rightarrow> run fs s' | Disabled \<Rightarrow> Disabled | Undefined x \<Rightarrow> Undefined x)"
proof (induction es arbitrary: s)
  case Nil
  then show ?case by simp
next
  case (Cons e es)
  then show ?case by (cases "step e s") simp_all
qed

lemma of_option_Next_iff: "of_option x = Next s \<longleftrightarrow> x = Some s"
  by (cases x) (simp_all add: of_option_def)

text \<open>No step of any thread assigns to the field \<^verbatim>\<open>nbBlocksPerRow\<close> of the engine.\<close>

lemma signal_jobAvailable_field:
  "signal_jobAvailable w s = Some s' \<Longrightarrow> defaultNbBlocksPerRow s' = defaultNbBlocksPerRow s"
  unfolding signal_jobAvailable_def
  by (auto split: if_splits monitor_exit.splits option.splits)

lemma signal_jobDone_field:
  "signal_jobDone c s = Some s' \<Longrightarrow> defaultNbBlocksPerRow s' = defaultNbBlocksPerRow s"
  unfolding signal_jobDone_def
  by (auto split: if_splits monitor_exit.splits cstate.splits)

lemma workerThread_field:
  "workerThread w k s = Next s' \<Longrightarrow> defaultNbBlocksPerRow s' = defaultNbBlocksPerRow s"
  unfolding workerThread_def
  by (auto simp: of_option_Next_iff dest!: signal_jobDone_field
      split: if_splits wstate.splits monitor_exit.splits option.splits sum.splits)

lemma multiply_step_field:
  "multiply_step c k s = Next s' \<Longrightarrow> defaultNbBlocksPerRow s' = defaultNbBlocksPerRow s"
  unfolding multiply_step_def
  by (auto simp: of_option_Next_iff dest!: signal_jobAvailable_field
      split: if_splits cstate.splits monitor_exit.splits option.splits sum.splits prod.splits)

lemma destructor_step_field:
  "destructor_step k s = Next s' \<Longrightarrow> defaultNbBlocksPerRow s' = defaultNbBlocksPerRow s"
  unfolding destructor_step_def
  by (auto simp: of_option_Next_iff dest!: signal_jobAvailable_field
      split: if_splits dstate.splits)

lemma step_field:
  "step e s = Next s' \<Longrightarrow> defaultNbBlocksPerRow s' = defaultNbBlocksPerRow s"
  by (cases e) (auto simp: multiply_def multiply3_def
      dest: workerThread_field multiply_step_field destructor_step_field)

lemma run_field:
  "run es s = Next s' \<Longrightarrow> defaultNbBlocksPerRow s' = defaultNbBlocksPerRow s"
proof (induction es arbitrary: s)
  case Nil
  then show ?case by simp
next
  case (Cons e es)
  then show ?case by (cases "step e s") (auto dest: step_field)
qed

lemma multiply3_zero:
  "defaultNbBlocksPerRow s = 0 \<Longrightarrow>
   multiply_step (length (calls s)) k (multiply3 a b c s) = Undefined DivisionByZero"
  by (simp add: multiply3_def multiply_def multiply_step_def idiv_def)

section \<open>The sums of the block kernel\<close>


lemma foldl_nested_concat:
  "foldl (\<lambda>s K. foldl f s (g K)) a Ks = foldl f a (concat (map g Ks))"
  by (induction Ks arbitrary: a) simp_all

lemma upto_join: "i \<le> j + 1 \<Longrightarrow> j \<le> k \<Longrightarrow> [i..j] @ [j + 1..k] = [i..k]"
proof (cases "i \<le> j")
  case True
  assume "j \<le> k"
  with True show ?thesis using upto_split2[of i j k] by simp
next
  case False
  assume "i \<le> j + 1" "j \<le> k"
  with False have "i = j + 1" by simp
  then show ?thesis by simp
qed

lemma concat_block_ranges:
  "0 \<le> bs \<Longrightarrow> concat (map (\<lambda>K. block_range K bs) [0 .. int d - 1]) = [0 .. int d * bs - 1]"
proof (induction d)
  case 0
  then show ?case by simp
next
  case (Suc d)
  have "[0 .. int (Suc d) - 1] = [0 .. int d - 1] @ [int d]"
    using upto_rec2[of 0 "int d"] by simp
  moreover have "[0 .. int d * bs - 1] @ [int d * bs - 1 + 1 .. int (Suc d) * bs - 1] = [0 .. int (Suc d) * bs - 1]"
    using Suc.prems by (intro upto_join) (simp_all add: algebra_simps)
  ultimately show ?case using Suc by (simp add: block_range_def algebra_simps)
qed

lemma block_sum_seq:
  assumes "0 \<le> bs" "0 \<le> nbBlocksPerRow p"
  shows "block_sum m p bs i j =
    foldl (\<lambda>sum k. sum + element (m (ptrA p)) k i * element (m (ptrB p)) j k) 0 [0 .. nbBlocksPerRow p * bs - 1]"
proof -
  obtain d where d: "nbBlocksPerRow p = int d" using assms(2) by (metis nonneg_int_cases)
  show ?thesis
    unfolding block_sum_def foldl_nested_concat d concat_block_ranges[OF assms(1)] ..
qed

lemma block_sum_cong:
  "m' (ptrA p) = m (ptrA p) \<Longrightarrow> m' (ptrB p) = m (ptrB p) \<Longrightarrow> block_sum m' p bs i j = block_sum m p bs i j"
  by (simp add: block_sum_def)

lemma element_setElement [simp]:
  "element (setElement M x y v) x' y' = (if x' = x \<and> y' = y then v else element M x' y')"
  by (simp add: setElement_def)

lemma msize_setElement [simp]: "msize (setElement M x y v) = msize M"
  by (simp add: setElement_def)

text \<open>A loop that stores into cells of one matrix, one cell for each index of a list.\<close>

lemma store_loop:
  fixes f :: "'a memory \<Rightarrow> 'i \<Rightarrow> 'a memory"
  assumes other: "\<And>m j x. x \<noteq> c \<Longrightarrow> f m j x = m x"
    and size: "\<And>m j. msize (f m j c) = msize (m c)"
    and cell: "\<And>m j x y. element (f m j c) x y = (if hit j x y then v m x y else element (m c) x y)"
    and val: "\<And>m m' x y. (\<forall>z. z \<noteq> c \<longrightarrow> m' z = m z) \<Longrightarrow> v m' x y = v m x y"
  shows "(\<forall>x. x \<noteq> c \<longrightarrow> foldl f m js x = m x) \<and> msize (foldl f m js c) = msize (m c) \<and>
     (\<forall>x y. element (foldl f m js c) x y = (if \<exists>j \<in> set js. hit j x y then v m x y else element (m c) x y))"
proof (induction js rule: rev_induct)
  case Nil
  then show ?case by simp
next
  case (snoc j js)
  have "v (foldl f m js) x y = v m x y" for x y
    using snoc by (intro val) simp
  with snoc show ?case
    by (auto simp: other size cell)
qed

lemma row_loop:
  fixes m :: "('a::{zero,plus,times}) memory" and js :: "int list" and bs i :: int
  assumes "ptrC p \<noteq> ptrA p" "ptrC p \<noteq> ptrB p"
  defines "r \<equiv> foldl (\<lambda>m j. m(ptrC p := setElement (m (ptrC p)) j i (block_sum m p bs i j))) m js"
  shows "(\<forall>x. x \<noteq> ptrC p \<longrightarrow> r x = m x) \<and> msize (r (ptrC p)) = msize (m (ptrC p)) \<and>
     (\<forall>x y. element (r (ptrC p)) x y = (if \<exists>j \<in> set js. x = j \<and> y = i then block_sum m p bs y x else element (m (ptrC p)) x y))"
  unfolding r_def
  by (rule store_loop[where hit = "\<lambda>j x y. x = j \<and> y = i" and v = "\<lambda>m x y. block_sum m p bs y x"])
     (use assms(1,2) in \<open>auto intro: block_sum_cong\<close>)

lemma block_loop:
  fixes m :: "('a::{zero,plus,times}) memory" and js ys :: "int list" and bs :: int
  assumes "ptrC p \<noteq> ptrA p" "ptrC p \<noteq> ptrB p"
  defines "r \<equiv> foldl (\<lambda>m i. foldl (\<lambda>m j. m(ptrC p := setElement (m (ptrC p)) j i (block_sum m p bs i j))) m js) m ys"
  shows "(\<forall>x. x \<noteq> ptrC p \<longrightarrow> r x = m x) \<and> msize (r (ptrC p)) = msize (m (ptrC p)) \<and>
     (\<forall>x y. element (r (ptrC p)) x y = (if \<exists>i \<in> set ys. x \<in> set js \<and> y = i then block_sum m p bs y x else element (m (ptrC p)) x y))"
  unfolding r_def
proof (rule store_loop[where hit = "\<lambda>i x y. x \<in> set js \<and> y = i" and v = "\<lambda>m x y. block_sum m p bs y x"], goal_cases)
  case (1 m i x)
  then show ?case using row_loop[OF assms(1,2), where i = i and bs = bs and m = m and js = js] by simp
next
  case (2 m i)
  then show ?case using row_loop[OF assms(1,2), where i = i and bs = bs and m = m and js = js] by simp
next
  case (3 m i x y)
  then show ?case using row_loop[OF assms(1,2), where i = i and bs = bs and m = m and js = js] by auto
next
  case (4 m m' x y)
  then show ?case using assms(1,2) by (intro block_sum_cong) auto
qed

lemma zero_fill_effect:
  fixes m :: "('a::zero) memory"
  shows "(\<forall>x. x \<noteq> c \<longrightarrow> zero_fill m c n x = m x) \<and> msize (zero_fill m c n c) = msize (m c) \<and>
     (\<forall>x y. element (zero_fill m c n c) x y = (if 0 \<le> x \<and> x < n \<and> 0 \<le> y \<and> y < n then 0 else element (m c) x y))"
proof -
  have row: "(\<forall>x. x \<noteq> c \<longrightarrow> foldl (\<lambda>m j. m(c := setElement (m c) i j 0)) m js x = m x) \<and>
     msize (foldl (\<lambda>m j. m(c := setElement (m c) i j 0)) m js c) = msize (m c) \<and>
     (\<forall>x y. element (foldl (\<lambda>m j. m(c := setElement (m c) i j 0)) m js c) x y
        = (if \<exists>j \<in> set js. x = i \<and> y = j then 0 else element (m c) x y))" for i :: int and js and m :: "'a memory"
    by (rule store_loop[where hit = "\<lambda>j x y. x = i \<and> y = j" and v = "\<lambda>m x y. 0"]) auto
  have "(\<forall>x. x \<noteq> c \<longrightarrow> foldl (\<lambda>m i. foldl (\<lambda>m j. m(c := setElement (m c) i j 0)) m js) m ys x = m x) \<and>
     msize (foldl (\<lambda>m i. foldl (\<lambda>m j. m(c := setElement (m c) i j 0)) m js) m ys c) = msize (m c) \<and>
     (\<forall>x y. element (foldl (\<lambda>m i. foldl (\<lambda>m j. m(c := setElement (m c) i j 0)) m js) m ys c) x y
        = (if \<exists>i \<in> set ys. x = i \<and> y \<in> set js then 0 else element (m c) x y))" for ys js :: "int list"
  proof (rule store_loop[where hit = "\<lambda>i x y. x = i \<and> y \<in> set js" and v = "\<lambda>m x y. 0"], goal_cases)
    case (1 m i x)
    then show ?case using row[where m = m and i = i and js = js] by simp
  next
    case (2 m i)
    then show ?case using row[where m = m and i = i and js = js] by simp
  next
    case (3 m i x y)
    then show ?case using row[where m = m and i = i and js = js] by auto
  next
    case (4 m m' x y)
    then show ?case by simp
  qed
  from this[of "[0..n-1]" "[0..n-1]"] show ?thesis
    by (auto simp: zero_fill_def)
qed

section \<open>The steps, case by case\<close>

lemma getJob_wait: "jobQueue b = [] \<Longrightarrow> \<not> isTerminating b \<Longrightarrow> getJob b = Wait b"
  by (simp add: getJob_def)

lemma getJob_stop: "jobQueue b = [] \<Longrightarrow> isTerminating b \<Longrightarrow> getJob b = Return None b"
  by (simp add: getJob_def)

lemma getJob_take: "jobQueue b = p # q \<Longrightarrow> getJob b = Return (Some p) (b\<lparr>jobQueue := q\<rparr>)"
  by (simp add: getJob_def)

lemma blocked_in_set: "k < length ts \<Longrightarrow> ts ! k = W_Blocked \<Longrightarrow> W_Blocked \<in> set ts"
  by (metis nth_mem)

lemma sa_nobody: "W_Blocked \<notin> set (threads s) \<Longrightarrow> signal_jobAvailable k s = Some s"
  by (simp add: signal_jobAvailable_def)

lemma sa_invalid:
  "W_Blocked \<in> set (threads s) \<Longrightarrow> \<not> (k < length (threads s) \<and> threads s ! k = W_Blocked) \<Longrightarrow>
   signal_jobAvailable k s = None"
  by (auto simp: signal_jobAvailable_def)

lemma sa_again:
  "k < length (threads s) \<Longrightarrow> threads s ! k = W_Blocked \<Longrightarrow> jobQueue (buffer s) = [] \<Longrightarrow>
   \<not> isTerminating (buffer s) \<Longrightarrow> signal_jobAvailable k s = Some s"
  by (simp add: signal_jobAvailable_def getJob_wait blocked_in_set)

lemma sa_stop:
  "k < length (threads s) \<Longrightarrow> threads s ! k = W_Blocked \<Longrightarrow> jobQueue (buffer s) = [] \<Longrightarrow>
   isTerminating (buffer s) \<Longrightarrow>
   signal_jobAvailable k s = Some (s\<lparr>threads := (threads s)[k := W_Exited]\<rparr>)"
  by (simp add: signal_jobAvailable_def getJob_stop blocked_in_set)

lemma sa_take:
  "k < length (threads s) \<Longrightarrow> threads s ! k = W_Blocked \<Longrightarrow> jobQueue (buffer s) = p # q \<Longrightarrow>
   signal_jobAvailable k s =
     Some (s\<lparr>buffer := (buffer s)\<lparr>jobQueue := q\<rparr>, threads := (threads s)[k := W_Compute p]\<rparr>)"
  by (simp add: signal_jobAvailable_def getJob_take blocked_in_set)

lemma wait_loop_wait:
  "subscript (jobsFinishedPerComputation b) cid < t \<Longrightarrow>
   waitAllJobsDone_loop b cid t = Wait (b\<lparr>jobsFinishedPerComputation := touch (jobsFinishedPerComputation b) cid\<rparr>)"
  by (simp add: waitAllJobsDone_loop_def Let_def)

lemma wait_loop_return:
  "\<not> subscript (jobsFinishedPerComputation b) cid < t \<Longrightarrow>
   waitAllJobsDone_loop b cid t = Return () (b\<lparr>jobsFinishedPerComputation := (jobsFinishedPerComputation b)(cid := None),
          totalJobsPerComputation := (totalJobsPerComputation b)(cid := None)\<rparr>)"
  by (simp add: waitAllJobsDone_loop_def Let_def touch_def)

lemma sd_nobody: "\<not> list_ex is_blocked_call (calls s) \<Longrightarrow> signal_jobDone k s = Some s"
  by (simp add: signal_jobDone_def)

lemma blocked_call_ex: "k < length cs \<Longrightarrow> cs ! k = M_Blocked cid t \<Longrightarrow> list_ex is_blocked_call cs"
proof -
  assume k: "k < length cs" "cs ! k = M_Blocked cid t"
  have "is_blocked_call (cs ! k)" by (simp add: k(2) is_blocked_call_def)
  moreover have "cs ! k \<in> set cs" using k(1) by simp
  ultimately show ?thesis unfolding list_ex_iff by blast
qed

lemma signal_jobAvailable_cases:
  assumes "signal_jobAvailable k s = Some s'"
  obtains (nobody) "W_Blocked \<notin> set (threads s)" "s' = s"
  | (again) "k < length (threads s)" "threads s ! k = W_Blocked" "jobQueue (buffer s) = []" "\<not> isTerminating (buffer s)" "s' = s"
  | (stop) "k < length (threads s)" "threads s ! k = W_Blocked" "jobQueue (buffer s) = []" "isTerminating (buffer s)"
       "s' = s\<lparr>threads := (threads s)[k := W_Exited]\<rparr>"
  | (take) p q where "k < length (threads s)" "threads s ! k = W_Blocked" "jobQueue (buffer s) = p # q"
       "s' = s\<lparr>buffer := (buffer s)\<lparr>jobQueue := q\<rparr>, threads := (threads s)[k := W_Compute p]\<rparr>"
proof (cases "W_Blocked \<in> set (threads s)")
  case False
  have "s' = s" using assms unfolding sa_nobody[OF False] by (simp only: option.inject)
  then show ?thesis by (rule nobody[OF False])
next
  case True
  have k: "k < length (threads s) \<and> threads s ! k = W_Blocked"
  proof (rule ccontr)
    assume n: "\<not> (k < length (threads s) \<and> threads s ! k = W_Blocked)"
    from assms show False unfolding sa_invalid[OF True n] by (simp only: option.distinct)
  qed
  then have k1: "k < length (threads s)" and k2: "threads s ! k = W_Blocked" by simp_all
  show ?thesis
  proof (cases "jobQueue (buffer s)")
    case Nil
    show ?thesis
    proof (cases "isTerminating (buffer s)")
      case t: True
      have "s' = s\<lparr>threads := (threads s)[k := W_Exited]\<rparr>"
        using assms unfolding sa_stop[OF k1 k2 Nil t] by (simp only: option.inject)
      then show ?thesis by (rule stop[OF k1 k2 Nil t])
    next
      case f: False
      have "s' = s" using assms unfolding sa_again[OF k1 k2 Nil f] by (simp only: option.inject)
      then show ?thesis by (rule again[OF k1 k2 Nil f])
    qed
  next
    case (Cons p q)
    have "s' = s\<lparr>buffer := (buffer s)\<lparr>jobQueue := q\<rparr>, threads := (threads s)[k := W_Compute p]\<rparr>"
      using assms unfolding sa_take[OF k1 k2 Cons] by (simp only: option.inject)
    then show ?thesis by (rule take[OF k1 k2 Cons])
  qed
qed

lemma sd_invalid:
  "list_ex is_blocked_call (calls s) \<Longrightarrow> \<not> (k < length (calls s) \<and> is_blocked_call (calls s ! k)) \<Longrightarrow>
   signal_jobDone k s = None"
  by (auto simp: signal_jobDone_def is_blocked_call_def split: cstate.splits)

lemma sd_again:
  "k < length (calls s) \<Longrightarrow> calls s ! k = M_Blocked cid t \<Longrightarrow>
   subscript (jobsFinishedPerComputation (buffer s)) cid < t \<Longrightarrow>
   signal_jobDone k s =
     Some (s\<lparr>buffer := (buffer s)\<lparr>jobsFinishedPerComputation := touch (jobsFinishedPerComputation (buffer s)) cid\<rparr>\<rparr>)"
  by (simp add: signal_jobDone_def blocked_call_ex wait_loop_wait)

lemma sd_return:
  "k < length (calls s) \<Longrightarrow> calls s ! k = M_Blocked cid t \<Longrightarrow>
   \<not> subscript (jobsFinishedPerComputation (buffer s)) cid < t \<Longrightarrow>
   signal_jobDone k s =
     Some (s\<lparr>buffer := (buffer s)\<lparr>jobsFinishedPerComputation := (jobsFinishedPerComputation (buffer s))(cid := None),
          totalJobsPerComputation := (totalJobsPerComputation (buffer s))(cid := None)\<rparr>,
          calls := (calls s)[k := M_Returned]\<rparr>)"
  by (simp add: signal_jobDone_def blocked_call_ex wait_loop_return)

lemma signal_jobDone_cases:
  assumes "signal_jobDone k s = Some s'"
  obtains (nobody) "\<not> list_ex is_blocked_call (calls s)" "s' = s"
  | (again) cid t where "k < length (calls s)" "calls s ! k = M_Blocked cid t"
       "subscript (jobsFinishedPerComputation (buffer s)) cid < t"
       "s' = s\<lparr>buffer := (buffer s)\<lparr>jobsFinishedPerComputation := touch (jobsFinishedPerComputation (buffer s)) cid\<rparr>\<rparr>"
  | (return) cid t where "k < length (calls s)" "calls s ! k = M_Blocked cid t"
       "\<not> subscript (jobsFinishedPerComputation (buffer s)) cid < t"
       "s' = s\<lparr>buffer := (buffer s)\<lparr>jobsFinishedPerComputation := (jobsFinishedPerComputation (buffer s))(cid := None),
          totalJobsPerComputation := (totalJobsPerComputation (buffer s))(cid := None)\<rparr>,
          calls := (calls s)[k := M_Returned]\<rparr>"
proof (cases "list_ex is_blocked_call (calls s)")
  case False
  have "s' = s" using assms unfolding sd_nobody[OF False] by (simp only: option.inject)
  then show ?thesis by (rule nobody[OF False])
next
  case True
  have k: "k < length (calls s) \<and> is_blocked_call (calls s ! k)"
  proof (rule ccontr)
    assume n: "\<not> (k < length (calls s) \<and> is_blocked_call (calls s ! k))"
    from assms show False unfolding sd_invalid[OF True n] by (simp only: option.distinct)
  qed
  then have k1: "k < length (calls s)" by simp
  from k obtain cid t where k2: "calls s ! k = M_Blocked cid t"
    by (cases "calls s ! k") (simp_all add: is_blocked_call_def)
  show ?thesis
  proof (cases "subscript (jobsFinishedPerComputation (buffer s)) cid < t")
    case lt: True
    have "s' = s\<lparr>buffer := (buffer s)\<lparr>jobsFinishedPerComputation := touch (jobsFinishedPerComputation (buffer s)) cid\<rparr>\<rparr>"
      using assms unfolding sd_again[OF k1 k2 lt] by (simp only: option.inject)
    then show ?thesis by (rule again[OF k1 k2 lt])
  next
    case ge: False
    have "s' = s\<lparr>buffer := (buffer s)\<lparr>jobsFinishedPerComputation := (jobsFinishedPerComputation (buffer s))(cid := None),
          totalJobsPerComputation := (totalJobsPerComputation (buffer s))(cid := None)\<rparr>,
          calls := (calls s)[k := M_Returned]\<rparr>"
      using assms unfolding sd_return[OF k1 k2 ge] by (simp only: option.inject)
    then show ?thesis by (rule return[OF k1 k2 ge])
  qed
qed

lemma wt_range: "\<not> w < length (threads s) \<Longrightarrow> workerThread w k s = Disabled"
  by (simp add: workerThread_def)

lemma wt_block:
  "w < length (threads s) \<Longrightarrow> threads s ! w = W_GetJob \<Longrightarrow> jobQueue (buffer s) = [] \<Longrightarrow>
   \<not> isTerminating (buffer s) \<Longrightarrow>
   workerThread w k s = Next (s\<lparr>threads := (threads s)[w := W_Blocked]\<rparr>)"
  by (simp add: workerThread_def getJob_wait)

lemma wt_exit:
  "w < length (threads s) \<Longrightarrow> threads s ! w = W_GetJob \<Longrightarrow> jobQueue (buffer s) = [] \<Longrightarrow>
   isTerminating (buffer s) \<Longrightarrow>
   workerThread w k s = Next (s\<lparr>threads := (threads s)[w := W_Exited]\<rparr>)"
  by (simp add: workerThread_def getJob_stop)

lemma wt_take:
  "w < length (threads s) \<Longrightarrow> threads s ! w = W_GetJob \<Longrightarrow> jobQueue (buffer s) = p # q \<Longrightarrow>
   workerThread w k s =
     Next (s\<lparr>buffer := (buffer s)\<lparr>jobQueue := q\<rparr>, threads := (threads s)[w := W_Compute p]\<rparr>)"
  by (simp add: workerThread_def getJob_take)

lemma wt_blocked: "w < length (threads s) \<Longrightarrow> threads s ! w = W_Blocked \<Longrightarrow> workerThread w k s = Disabled"
  by (simp add: workerThread_def)

lemma wt_exited: "w < length (threads s) \<Longrightarrow> threads s ! w = W_Exited \<Longrightarrow> workerThread w k s = Disabled"
  by (simp add: workerThread_def)

lemma wt_compute:
  "w < length (threads s) \<Longrightarrow> threads s ! w = W_Compute p \<Longrightarrow> computeBlock (mem s) p = Inr m \<Longrightarrow>
   workerThread w k s = Next (s\<lparr>mem := m, threads := (threads s)[w := W_Report p]\<rparr>)"
  by (simp add: workerThread_def)

lemma wt_compute_undefined:
  "w < length (threads s) \<Longrightarrow> threads s ! w = W_Compute p \<Longrightarrow> computeBlock (mem s) p = Inl e \<Longrightarrow>
   workerThread w k s = Undefined e"
  by (simp add: workerThread_def)

lemma wt_report:
  "w < length (threads s) \<Longrightarrow> threads s ! w = W_Report p \<Longrightarrow>
   jobCompleted (buffer s) (computationId p) = Inr bf \<Longrightarrow>
   workerThread w k s = of_option (signal_jobDone k (s\<lparr>buffer := bf, threads := (threads s)[w := W_GetJob]\<rparr>))"
  by (simp add: workerThread_def)

lemma wt_report_undefined:
  "w < length (threads s) \<Longrightarrow> threads s ! w = W_Report p \<Longrightarrow>
   jobCompleted (buffer s) (computationId p) = Inl e \<Longrightarrow> workerThread w k s = Undefined e"
  by (simp add: workerThread_def)

lemma of_option_Next: "of_option x = Next s' \<Longrightarrow> x = Some s'"
  by (cases x) (simp_all add: of_option_def)

lemma workerThread_cases:
  assumes "workerThread w k s = Next s'"
  obtains (block) "w < length (threads s)" "threads s ! w = W_GetJob" "jobQueue (buffer s) = []" "\<not> isTerminating (buffer s)"
       "s' = s\<lparr>threads := (threads s)[w := W_Blocked]\<rparr>"
  | (exit) "w < length (threads s)" "threads s ! w = W_GetJob" "jobQueue (buffer s) = []" "isTerminating (buffer s)"
       "s' = s\<lparr>threads := (threads s)[w := W_Exited]\<rparr>"
  | (take) p q where "w < length (threads s)" "threads s ! w = W_GetJob" "jobQueue (buffer s) = p # q"
       "s' = s\<lparr>buffer := (buffer s)\<lparr>jobQueue := q\<rparr>, threads := (threads s)[w := W_Compute p]\<rparr>"
  | (compute) p m where "w < length (threads s)" "threads s ! w = W_Compute p" "computeBlock (mem s) p = Inr m"
       "s' = s\<lparr>mem := m, threads := (threads s)[w := W_Report p]\<rparr>"
  | (report) p bf where "w < length (threads s)" "threads s ! w = W_Report p"
       "jobCompleted (buffer s) (computationId p) = Inr bf"
       "signal_jobDone k (s\<lparr>buffer := bf, threads := (threads s)[w := W_GetJob]\<rparr>) = Some s'"
proof -
  have w: "w < length (threads s)"
  proof (rule ccontr)
    assume n: "\<not> w < length (threads s)"
    from assms show False unfolding wt_range[OF n] by (simp only: outcome.distinct)
  qed
  show ?thesis
  proof (cases "threads s ! w")
    case W_GetJob
    show ?thesis
    proof (cases "jobQueue (buffer s)")
      case Nil
      show ?thesis
      proof (cases "isTerminating (buffer s)")
        case t: True
        have "s' = s\<lparr>threads := (threads s)[w := W_Exited]\<rparr>"
          using assms unfolding wt_exit[OF w W_GetJob Nil t] by (simp only: outcome.inject)
        then show ?thesis by (rule exit[OF w W_GetJob Nil t])
      next
        case f: False
        have "s' = s\<lparr>threads := (threads s)[w := W_Blocked]\<rparr>"
          using assms unfolding wt_block[OF w W_GetJob Nil f] by (simp only: outcome.inject)
        then show ?thesis by (rule block[OF w W_GetJob Nil f])
      qed
    next
      case (Cons p q)
      have "s' = s\<lparr>buffer := (buffer s)\<lparr>jobQueue := q\<rparr>, threads := (threads s)[w := W_Compute p]\<rparr>"
        using assms unfolding wt_take[OF w W_GetJob Cons] by (simp only: outcome.inject)
      then show ?thesis by (rule take[OF w W_GetJob Cons])
    qed
  next
    case W_Blocked
    from assms show ?thesis unfolding wt_blocked[OF w W_Blocked] by (simp only: outcome.distinct)
  next
    case (W_Compute p)
    show ?thesis
    proof (cases "computeBlock (mem s) p")
      case (Inl e)
      from assms show ?thesis unfolding wt_compute_undefined[OF w W_Compute Inl] by (simp only: outcome.distinct)
    next
      case (Inr m)
      have "s' = s\<lparr>mem := m, threads := (threads s)[w := W_Report p]\<rparr>"
        using assms unfolding wt_compute[OF w W_Compute Inr] by (simp only: outcome.inject)
      then show ?thesis by (rule compute[OF w W_Compute Inr])
    qed
  next
    case (W_Report p)
    show ?thesis
    proof (cases "jobCompleted (buffer s) (computationId p)")
      case (Inl e)
      from assms show ?thesis unfolding wt_report_undefined[OF w W_Report Inl] by (simp only: outcome.distinct)
    next
      case (Inr bf)
      have "signal_jobDone k (s\<lparr>buffer := bf, threads := (threads s)[w := W_GetJob]\<rparr>) = Some s'"
        using assms unfolding wt_report[OF w W_Report Inr] by (rule of_option_Next)
      then show ?thesis by (rule report[OF w W_Report Inr])
    qed
  next
    case W_Exited
    from assms show ?thesis unfolding wt_exited[OF w W_Exited] by (simp only: outcome.distinct)
  qed
qed

lemma idiv_size: "d \<noteq> 0 \<Longrightarrow> idiv (int n) d = Inr (sgn (int n) * sgn d * (\<bar>int n\<bar> div \<bar>d\<bar>))"
  by (simp add: idiv_def INT_MAX_def)

lemma idiv_size_pos: "0 < d \<Longrightarrow> idiv (int n) d = Inr (int n div d)"
  by (cases "n = 0") (simp_all add: idiv_def INT_MAX_def)

lemma ms_range: "\<not> c < length (calls s) \<Longrightarrow> multiply_step c k s = Disabled"
  by (simp add: multiply_step_def)

lemma ms_start:
  "c < length (calls s) \<Longrightarrow> calls s ! c = M_Start a b cc d \<Longrightarrow> d \<noteq> 0 \<Longrightarrow>
   - INT_MAX - 1 \<le> d * d \<and> d * d \<le> INT_MAX \<Longrightarrow>
   multiply_step c k s =
     Next (s\<lparr>mem := zero_fill (mem s) cc (int (msize (mem s a))), calls := (calls s)[c := M_Register a b cc d]\<rparr>)"
  by (simp add: multiply_step_def idiv_size imul_def)

lemma ms_start_zero:
  "c < length (calls s) \<Longrightarrow> calls s ! c = M_Start a b cc 0 \<Longrightarrow>
   multiply_step c k s = Undefined DivisionByZero"
  by (simp add: multiply_step_def idiv_def)

lemma ms_start_overflow:
  "c < length (calls s) \<Longrightarrow> calls s ! c = M_Start a b cc d \<Longrightarrow> d \<noteq> 0 \<Longrightarrow>
   \<not> (- INT_MAX - 1 \<le> d * d \<and> d * d \<le> INT_MAX) \<Longrightarrow>
   multiply_step c k s = Undefined SignedOverflow"
  by (simp add: multiply_step_def idiv_size imul_def)

lemma ms_register:
  "c < length (calls s) \<Longrightarrow> calls s ! c = M_Register a b cc d \<Longrightarrow>
   nextComputationId (buffer s) \<noteq> INT_MAX \<Longrightarrow>
   multiply_step c k s =
     Next (s\<lparr>buffer := (buffer s)\<lparr>nextComputationId := nextComputationId (buffer s) + 1,
               jobsFinishedPerComputation := (jobsFinishedPerComputation (buffer s))(nextComputationId (buffer s) \<mapsto> 0),
               totalJobsPerComputation := (totalJobsPerComputation (buffer s))(nextComputationId (buffer s) \<mapsto> d * d)\<rparr>,
             calls := (calls s)[c := (if 0 < d then M_Send a b cc d (nextComputationId (buffer s)) 0 0
                                      else M_Wait (nextComputationId (buffer s)))]\<rparr>)"
  by (simp add: multiply_step_def startNewComputation_def)

lemma ms_register_overflow:
  "c < length (calls s) \<Longrightarrow> calls s ! c = M_Register a b cc d \<Longrightarrow>
   nextComputationId (buffer s) = INT_MAX \<Longrightarrow> multiply_step c k s = Undefined SignedOverflow"
  by (simp add: multiply_step_def startNewComputation_def)

lemma ms_send:
  "c < length (calls s) \<Longrightarrow> calls s ! c = M_Send a b cc d cid bi bj \<Longrightarrow>
   multiply_step c k s =
     of_option (signal_jobAvailable k
       (s\<lparr>buffer := (buffer s)\<lparr>jobQueue := jobQueue (buffer s) @ [job a b cc d cid bi bj]\<rparr>,
           calls := (calls s)[c := next_send a b cc d cid bi bj]\<rparr>))"
  by (simp add: multiply_step_def sendJob_def job_def)

lemma ms_block:
  "c < length (calls s) \<Longrightarrow> calls s ! c = M_Wait cid \<Longrightarrow>
   subscript (jobsFinishedPerComputation (buffer s)) cid < subscript (totalJobsPerComputation (buffer s)) cid \<Longrightarrow>
   multiply_step c k s =
     Next (s\<lparr>buffer := (buffer s)\<lparr>totalJobsPerComputation := touch (totalJobsPerComputation (buffer s)) cid,
                 jobsFinishedPerComputation := touch (jobsFinishedPerComputation (buffer s)) cid\<rparr>,
             calls := (calls s)[c := M_Blocked cid (subscript (totalJobsPerComputation (buffer s)) cid)]\<rparr>)"
  by (simp add: multiply_step_def waitAllJobsDone_def waitAllJobsDone_enter_def wait_loop_wait)

lemma ms_return:
  "c < length (calls s) \<Longrightarrow> calls s ! c = M_Wait cid \<Longrightarrow>
   \<not> subscript (jobsFinishedPerComputation (buffer s)) cid < subscript (totalJobsPerComputation (buffer s)) cid \<Longrightarrow>
   multiply_step c k s =
     Next (s\<lparr>buffer := (buffer s)\<lparr>jobsFinishedPerComputation := (jobsFinishedPerComputation (buffer s))(cid := None),
                 totalJobsPerComputation := (totalJobsPerComputation (buffer s))(cid := None)\<rparr>,
             calls := (calls s)[c := M_Returned]\<rparr>)"
  by (simp add: multiply_step_def waitAllJobsDone_def waitAllJobsDone_enter_def wait_loop_return touch_def)

lemma ms_blocked:
  "c < length (calls s) \<Longrightarrow> calls s ! c = M_Blocked cid t \<Longrightarrow> multiply_step c k s = Disabled"
  by (simp add: multiply_step_def)

lemma ms_returned:
  "c < length (calls s) \<Longrightarrow> calls s ! c = M_Returned \<Longrightarrow> multiply_step c k s = Disabled"
  by (simp add: multiply_step_def)

lemma multiply_step_cases:
  assumes "multiply_step c k s = Next s'"
  obtains (start) a b cc d where "c < length (calls s)" "calls s ! c = M_Start a b cc d" "d \<noteq> 0"
       "- INT_MAX - 1 \<le> d * d \<and> d * d \<le> INT_MAX"
       "s' = s\<lparr>mem := zero_fill (mem s) cc (int (msize (mem s a))), calls := (calls s)[c := M_Register a b cc d]\<rparr>"
  | (register) a b cc d where "c < length (calls s)" "calls s ! c = M_Register a b cc d"
       "nextComputationId (buffer s) \<noteq> INT_MAX"
       "s' = s\<lparr>buffer := (buffer s)\<lparr>nextComputationId := nextComputationId (buffer s) + 1,
               jobsFinishedPerComputation := (jobsFinishedPerComputation (buffer s))(nextComputationId (buffer s) \<mapsto> 0),
               totalJobsPerComputation := (totalJobsPerComputation (buffer s))(nextComputationId (buffer s) \<mapsto> d * d)\<rparr>,
             calls := (calls s)[c := (if 0 < d then M_Send a b cc d (nextComputationId (buffer s)) 0 0
                                      else M_Wait (nextComputationId (buffer s)))]\<rparr>"
  | (send) a b cc d cid bi bj where "c < length (calls s)" "calls s ! c = M_Send a b cc d cid bi bj"
       "signal_jobAvailable k (s\<lparr>buffer := (buffer s)\<lparr>jobQueue := jobQueue (buffer s) @ [job a b cc d cid bi bj]\<rparr>,
           calls := (calls s)[c := next_send a b cc d cid bi bj]\<rparr>) = Some s'"
  | (block) cid where "c < length (calls s)" "calls s ! c = M_Wait cid"
       "subscript (jobsFinishedPerComputation (buffer s)) cid < subscript (totalJobsPerComputation (buffer s)) cid"
       "s' = s\<lparr>buffer := (buffer s)\<lparr>totalJobsPerComputation := touch (totalJobsPerComputation (buffer s)) cid,
                 jobsFinishedPerComputation := touch (jobsFinishedPerComputation (buffer s)) cid\<rparr>,
             calls := (calls s)[c := M_Blocked cid (subscript (totalJobsPerComputation (buffer s)) cid)]\<rparr>"
  | (return) cid where "c < length (calls s)" "calls s ! c = M_Wait cid"
       "\<not> subscript (jobsFinishedPerComputation (buffer s)) cid < subscript (totalJobsPerComputation (buffer s)) cid"
       "s' = s\<lparr>buffer := (buffer s)\<lparr>jobsFinishedPerComputation := (jobsFinishedPerComputation (buffer s))(cid := None),
                 totalJobsPerComputation := (totalJobsPerComputation (buffer s))(cid := None)\<rparr>,
             calls := (calls s)[c := M_Returned]\<rparr>"
proof -
  have c: "c < length (calls s)"
  proof (rule ccontr)
    assume n: "\<not> c < length (calls s)"
    from assms show False unfolding ms_range[OF n] by (simp only: outcome.distinct)
  qed
  show ?thesis
  proof (cases "calls s ! c")
    case (M_Start a b cc d)
    have d: "d \<noteq> 0"
    proof
      assume "d = 0"
      with M_Start have z: "calls s ! c = M_Start a b cc 0" by simp
      from assms show False unfolding ms_start_zero[OF c z] by (simp only: outcome.distinct)
    qed
    have r: "- INT_MAX - 1 \<le> d * d \<and> d * d \<le> INT_MAX"
    proof (rule ccontr)
      assume n: "\<not> (- INT_MAX - 1 \<le> d * d \<and> d * d \<le> INT_MAX)"
      from assms show False unfolding ms_start_overflow[OF c M_Start d n] by (simp only: outcome.distinct)
    qed
    have "s' = s\<lparr>mem := zero_fill (mem s) cc (int (msize (mem s a))), calls := (calls s)[c := M_Register a b cc d]\<rparr>"
      using assms unfolding ms_start[OF c M_Start d r] by (simp only: outcome.inject)
    then show ?thesis by (rule start[OF c M_Start d r])
  next
    case (M_Register a b cc d)
    have n: "nextComputationId (buffer s) \<noteq> INT_MAX"
    proof
      assume e: "nextComputationId (buffer s) = INT_MAX"
      from assms show False unfolding ms_register_overflow[OF c M_Register e] by (simp only: outcome.distinct)
    qed
    have "s' = s\<lparr>buffer := (buffer s)\<lparr>nextComputationId := nextComputationId (buffer s) + 1,
               jobsFinishedPerComputation := (jobsFinishedPerComputation (buffer s))(nextComputationId (buffer s) \<mapsto> 0),
               totalJobsPerComputation := (totalJobsPerComputation (buffer s))(nextComputationId (buffer s) \<mapsto> d * d)\<rparr>,
             calls := (calls s)[c := (if 0 < d then M_Send a b cc d (nextComputationId (buffer s)) 0 0
                                      else M_Wait (nextComputationId (buffer s)))]\<rparr>"
      using assms unfolding ms_register[OF c M_Register n] by (simp only: outcome.inject)
    then show ?thesis by (rule register[OF c M_Register n])
  next
    case (M_Send a b cc d cid bi bj)
    have "signal_jobAvailable k (s\<lparr>buffer := (buffer s)\<lparr>jobQueue := jobQueue (buffer s) @ [job a b cc d cid bi bj]\<rparr>,
           calls := (calls s)[c := next_send a b cc d cid bi bj]\<rparr>) = Some s'"
      using assms unfolding ms_send[OF c M_Send] by (rule of_option_Next)
    then show ?thesis by (rule send[OF c M_Send])
  next
    case (M_Wait cid)
    show ?thesis
    proof (cases "subscript (jobsFinishedPerComputation (buffer s)) cid < subscript (totalJobsPerComputation (buffer s)) cid")
      case True
      have "s' = s\<lparr>buffer := (buffer s)\<lparr>totalJobsPerComputation := touch (totalJobsPerComputation (buffer s)) cid,
                 jobsFinishedPerComputation := touch (jobsFinishedPerComputation (buffer s)) cid\<rparr>,
             calls := (calls s)[c := M_Blocked cid (subscript (totalJobsPerComputation (buffer s)) cid)]\<rparr>"
        using assms unfolding ms_block[OF c M_Wait True] by (simp only: outcome.inject)
      then show ?thesis by (rule block[OF c M_Wait True])
    next
      case False
      have "s' = s\<lparr>buffer := (buffer s)\<lparr>jobsFinishedPerComputation := (jobsFinishedPerComputation (buffer s))(cid := None),
                 totalJobsPerComputation := (totalJobsPerComputation (buffer s))(cid := None)\<rparr>,
             calls := (calls s)[c := M_Returned]\<rparr>"
        using assms unfolding ms_return[OF c M_Wait False] by (simp only: outcome.inject)
      then show ?thesis by (rule return[OF c M_Wait False])
    qed
  next
    case (M_Blocked cid t)
    from assms show ?thesis unfolding ms_blocked[OF c M_Blocked] by (simp only: outcome.distinct)
  next
    case M_Returned
    from assms show ?thesis unfolding ms_returned[OF c M_Returned] by (simp only: outcome.distinct)
  qed
qed

section \<open>Lists of threads and the maps of the buffer\<close>

lemma set_update_cases: "x \<in> set (xs[i := y]) \<Longrightarrow> x = y \<or> x \<in> set xs"
  using set_update_subset_insert[of xs i y] by auto

lemma mem_update_other: "x \<in> set xs \<Longrightarrow> xs ! i \<noteq> x \<Longrightarrow> x \<in> set (xs[i := y])"
proof -
  assume a: "x \<in> set xs" "xs ! i \<noteq> x"
  then obtain j where j: "j < length xs" "xs ! j = x" by (auto simp: in_set_conv_nth)
  with a have "j \<noteq> i" by auto
  then have "xs[i := y] ! j = x" using j by simp
  moreover have "j < length (xs[i := y])" using j by simp
  ultimately show ?thesis by (auto simp: in_set_conv_nth)
qed

lemma filter_length_update:
  assumes "i < length xs"
  shows "int (length (filter P (xs[i := y]))) =
     int (length (filter P xs)) - (if P (xs ! i) then 1 else 0) + (if P y then 1 else 0)"
proof -
  have 1: "xs = take i xs @ xs ! i # drop (Suc i) xs" using assms by (rule id_take_nth_drop)
  have 2: "xs[i := y] = take i xs @ y # drop (Suc i) xs" using assms by (rule upd_conv_take_nth_drop)
  have "int (length (filter P xs)) =
     int (length (filter P (take i xs))) + (if P (xs ! i) then 1 else 0) + int (length (filter P (drop (Suc i) xs)))"
    by (subst 1) simp
  moreover have "int (length (filter P (xs[i := y]))) =
     int (length (filter P (take i xs))) + (if P y then 1 else 0) + int (length (filter P (drop (Suc i) xs)))"
    by (subst 2) simp
  ultimately show ?thesis by simp
qed

lemma holds_simps [simp]:
  "holds W_GetJob = False" "holds W_Blocked = False" "holds W_Exited = False"
  "holds (W_Compute p) = True" "holds (W_Report p) = True"
  by (simp_all add: holds_def)

lemma held_simps [simp]:
  "held W_GetJob = None" "held W_Blocked = None" "held W_Exited = None"
  "held (W_Compute p) = Some p" "held (W_Report p) = Some p"
  by (simp_all add: held_def)

lemma subscript_Some [simp]: "m k = Some v \<Longrightarrow> subscript m k = v"
  by (simp add: subscript_def)

lemma touch_Some [simp]: "m k = Some v \<Longrightarrow> touch m k = m"
  by (simp add: touch_def fun_upd_idem)

section \<open>The effect of computeBlock\<close>

lemma job_simps [simp]:
  "ptrA (job a b c d cid bi bj) = a" "ptrB (job a b c d cid bi bj) = b" "ptrC (job a b c d cid bi bj) = c"
  "blockI (job a b c d cid bi bj) = bi" "blockJ (job a b c d cid bi bj) = bj"
  "nbBlocksPerRow (job a b c d cid bi bj) = d" "computationId (job a b c d cid bi bj) = cid"
  by (simp_all add: job_def)

lemma job_inject: "job a b c d cid bi bj = job a b c d cid bi' bj' \<longleftrightarrow> bi = bi' \<and> bj = bj'"
  by (auto simp: job_def)

lemma computeBlock_effect:
  fixes m :: "('a::{zero,plus,times}) memory"
  assumes "0 < d" "c \<noteq> a" "c \<noteq> b"
  defines "bs \<equiv> int (msize (m a)) div d"
  shows "\<exists>r. computeBlock m (job a b c d cid bi bj) = Inr r \<and>
     (\<forall>x. x \<noteq> c \<longrightarrow> r x = m x) \<and> msize (r c) = msize (m c) \<and>
     (\<forall>x y. element (r c) x y =
        (if bj * bs \<le> x \<and> x < (bj + 1) * bs \<and> bi * bs \<le> y \<and> y < (bi + 1) * bs
         then kernel_value (m a) (m b) (d * bs) x y else element (m c) x y))"
proof -
  let ?p = "job a b c d cid bi bj"
  have bs0: "0 \<le> bs" using assms(1) by (simp add: bs_def pos_imp_zdiv_nonneg_iff)
  have sum: "block_sum m ?p bs y x = kernel_value (m a) (m b) (d * bs) x y" for x y
    using block_sum_seq[of bs ?p m y x] bs0 assms(1) by (simp add: kernel_value_def)
  have pc: "ptrC ?p \<noteq> ptrA ?p" "ptrC ?p \<noteq> ptrB ?p" using assms(2,3) by simp_all
  note bl = block_loop[OF pc, where bs = bs and m = m and js = "block_range bj bs" and ys = "block_range bi bs"]
  have cb: "computeBlock m ?p = Inr (foldl (\<lambda>m i. foldl (\<lambda>m j. m(ptrC ?p :=
               setElement (m (ptrC ?p)) j i (block_sum m ?p bs i j))) m (block_range bj bs)) m (block_range bi bs))"
    using assms(1) by (simp add: computeBlock_def idiv_size_pos bs_def)
  show ?thesis
    unfolding cb using bl by (simp add: sum block_range_def) 
qed

section \<open>The invariants are kept: the shape of the state\<close>

lemma jobCompleted_Inr:
  assumes "jobCompleted b i = Inr bf"
  shows "bf = b\<lparr>nbJobFinished := nbJobFinished b + 1,
                jobsFinishedPerComputation := (jobsFinishedPerComputation b)(i \<mapsto> subscript (jobsFinishedPerComputation b) i + 1)\<rparr>"
    and "nbJobFinished b \<noteq> INT_MAX" and "subscript (jobsFinishedPerComputation b) i \<noteq> INT_MAX"
  using assms by (auto simp: jobCompleted_def split: if_splits)

lemma legitE:
  assumes "legit a b c d cid p"
  obtains bi bj where "0 \<le> bi" "bi < d" "0 \<le> bj" "bj < d" "p = job a b c d cid bi bj"
  using assms unfolding legit_def by blast

lemma struct_block:
  assumes "inv_struct a b c d cid c0 m0 s" "jobQueue (buffer s) = []"
  shows "inv_struct a b c d cid c0 m0 (s\<lparr>threads := (threads s)[w := W_Blocked]\<rparr>)"
  using assms unfolding inv_struct_def
  by (auto dest!: set_update_cases)

lemma struct_take:
  assumes "inv_struct a b c d cid c0 m0 s" "jobQueue (buffer s) = p # q"
  shows "inv_struct a b c d cid c0 m0 (s\<lparr>buffer := (buffer s)\<lparr>jobQueue := q\<rparr>, threads := (threads s)[w := W_Compute p]\<rparr>)"
  using assms unfolding inv_struct_def
  by (auto dest!: set_update_cases)

lemma struct_compute:
  assumes "inv_struct a b c d cid c0 m0 s" "w < length (threads s)" "threads s ! w = W_Compute p"
    "\<forall>x. x \<noteq> c \<longrightarrow> m x = mem s x"
  shows "inv_struct a b c d cid c0 m0 (s\<lparr>mem := m, threads := (threads s)[w := W_Report p]\<rparr>)"
proof -
  have "W_Compute p \<in> set (threads s)" using assms(2,3) by (metis nth_mem)
  with assms(1) have "legit a b c d cid p" unfolding inv_struct_def by (simp add: Ball_def held_def)
  with assms show ?thesis unfolding inv_struct_def
    by (auto dest!: set_update_cases)
qed

lemma blocked_index:
  assumes "inv_struct a b c d cid c0 m0 s" "k < length (calls s)" "calls s ! k = M_Blocked cid' t"
  shows "k = c0"
proof (rule ccontr)
  assume "k \<noteq> c0"
  with assms(1,2) have "k < c0" unfolding inv_struct_def by simp
  with assms(1) have "calls s ! k = M_Returned" unfolding inv_struct_def by simp
  with assms(3) show False by simp
qed

lemma struct_report:
  assumes "inv_struct a b c d cid c0 m0 s" "jobCompleted (buffer s) i = Inr bf"
    "signal_jobDone k (s\<lparr>buffer := bf, threads := (threads s)[w := W_GetJob]\<rparr>) = Some s'"
  shows "inv_struct a b c d cid c0 m0 s'"
proof -
  let ?s1 = "s\<lparr>buffer := bf, threads := (threads s)[w := W_GetJob]\<rparr>"
  note bf = jobCompleted_Inr(1)[OF assms(2)]
  have s1: "inv_struct a b c d cid c0 m0 ?s1"
    using assms(1) unfolding inv_struct_def bf
    by (auto dest!: set_update_cases)
  from assms(3) show ?thesis
  proof (cases rule: signal_jobDone_cases)
    case nobody
    with s1 show ?thesis by simp
  next
    case (again cid' t)
    with s1 show ?thesis unfolding inv_struct_def by simp
  next
    case (return cid' t)
    have "k = c0" using blocked_index[OF s1 return(1,2)] .
    with s1 return(4) show ?thesis unfolding inv_struct_def
      by (auto simp: call_ok_def nth_list_update)
  qed
qed

lemma struct_worker:
  fixes s :: "('a::{zero,plus,times}) system"
  assumes "inv_struct a b c d cid c0 m0 s" "workerThread w k s = Next s'" "0 < d" "c \<noteq> a" "c \<noteq> b"
  shows "inv_struct a b c d cid c0 m0 s'"
  using assms(2)
proof (cases rule: workerThread_cases)
  case block
  then show ?thesis using struct_block[OF assms(1)] by simp
next
  case exit
  with assms(1) show ?thesis unfolding inv_struct_def by simp
next
  case (take p q)
  then show ?thesis using struct_take[OF assms(1)] by simp
next
  case (compute p m)
  have "W_Compute p \<in> set (threads s)" using compute(1,2) by (metis nth_mem)
  with assms(1) have "legit a b c d cid p" unfolding inv_struct_def by (simp add: Ball_def held_def)
  then obtain bi bj where p: "p = job a b c d cid bi bj" by (rule legitE)
  from computeBlock_effect[OF assms(3,4,5), of "mem s" cid bi bj] compute(3)
  have "\<forall>x. x \<noteq> c \<longrightarrow> m x = mem s x" unfolding p by auto
  from struct_compute[OF assms(1) compute(1,2) this] compute(4) show ?thesis by simp
next
  case (report p bf)
  from struct_report[OF assms(1) report(3,4)] show ?thesis .
qed

lemma caller_index:
  assumes "inv_struct a b c d cid c0 m0 s" "k < length (calls s)" "calls s ! k \<noteq> M_Returned"
  shows "k = c0"
proof (rule ccontr)
  assume "k \<noteq> c0"
  with assms(1,2) have "k < c0" unfolding inv_struct_def by simp
  with assms(1) have "calls s ! k = M_Returned" unfolding inv_struct_def by simp
  with assms(3) show False by simp
qed

lemma call_ok_next_send:
  assumes "0 \<le> bi" "bi < d" "0 \<le> bj" "bj < d"
  shows "call_ok a b c d cid (next_send a b c d cid bi bj)"
  using assms by (simp add: call_ok_def next_send_def)

lemma legit_job: "0 \<le> bi \<Longrightarrow> bi < d \<Longrightarrow> 0 \<le> bj \<Longrightarrow> bj < d \<Longrightarrow> legit a b c d cid (job a b c d cid bi bj)"
  unfolding legit_def by blast

lemma struct_send:
  assumes inv: "inv_struct a b c d cid c0 m0 s" and cs: "calls s ! c0 = M_Send a b c d cid bi bj"
    and sig: "signal_jobAvailable k (s\<lparr>buffer := (buffer s)\<lparr>jobQueue := jobQueue (buffer s) @ [job a b c d cid bi bj]\<rparr>,
           calls := (calls s)[c0 := next_send a b c d cid bi bj]\<rparr>) = Some s'"
  shows "inv_struct a b c d cid c0 m0 s'"
proof -
  from inv cs have bnd: "0 \<le> bi" "bi < d" "0 \<le> bj" "bj < d"
    unfolding inv_struct_def by (simp_all add: call_ok_def)
  note ok = call_ok_next_send[OF bnd, of a b c cid] and lj = legit_job[OF bnd, of a b c cid]
  from sig show ?thesis
  proof (cases rule: signal_jobAvailable_cases)
    case nobody
    with inv ok lj show ?thesis unfolding inv_struct_def
      by (auto simp: nth_list_update)
  next
    case again
    then show ?thesis by simp
  next
    case stop
    then show ?thesis by simp
  next
    case (take p q)
    from take(1) have "threads s ! k \<in> set (threads s)" by simp
    with take(2) have "W_Blocked \<in> set (threads s)" by simp
    with inv have "jobQueue (buffer s) = []" unfolding inv_struct_def by simp
    with take(3) have pq: "p = job a b c d cid bi bj" "q = []" by simp_all
    with inv ok lj take(4) show ?thesis unfolding inv_struct_def
      by (auto simp: nth_list_update dest!: set_update_cases)
  qed
qed

lemma struct_caller:
  fixes s :: "('a::{zero,plus,times}) system"
  assumes inv: "inv_struct a b c d cid c0 m0 s" and cnt: "inv_count d cid c0 f0 s"
    and st: "multiply_step k j s = Next s'" and d: "0 < d"
  shows "inv_struct a b c d cid c0 m0 s'"
  using st
proof (cases rule: multiply_step_cases)
  case (start a' b' c' d')
  then have k: "k = c0" using caller_index[OF inv] by simp
  with inv start(2) have eq: "a' = a" "b' = b" "c' = c" "d' = d"
    unfolding inv_struct_def by (simp_all add: call_ok_def)
  from zero_fill_effect[of c "mem s" "int (msize (mem s a))"]
  have "\<forall>x. x \<noteq> c \<longrightarrow> zero_fill (mem s) c (int (msize (mem s a))) x = mem s x" by blast
  with inv start(5) show ?thesis unfolding inv_struct_def k eq
    by (auto simp: call_ok_def nth_list_update)
next
  case (register a' b' c' d')
  then have k: "k = c0" using caller_index[OF inv] by simp
  with inv register(2) have eq: "a' = a" "b' = b" "c' = c" "d' = d"
    unfolding inv_struct_def by (simp_all add: call_ok_def)
  from cnt register(2) have "nextComputationId (buffer s) = cid"
    unfolding inv_count_def k by auto
  with inv register(4) d show ?thesis unfolding inv_struct_def k eq
    by (auto simp: call_ok_def nth_list_update)
next
  case (send a' b' c' d' cid' bi bj)
  then have k: "k = c0" using caller_index[OF inv] by simp
  with inv send(2) have eq: "a' = a" "b' = b" "c' = c" "d' = d" "cid' = cid"
    unfolding inv_struct_def by (simp_all add: call_ok_def)
  from send(2,3) show ?thesis unfolding k eq by (rule struct_send[OF inv])
next
  case (block cid')
  then have k: "k = c0" using caller_index[OF inv] by simp
  with inv block(2) have eq: "cid' = cid"
    unfolding inv_struct_def by (simp_all add: call_ok_def)
  from cnt block(2) have "totalJobsPerComputation (buffer s) cid = Some (d * d)"
    unfolding inv_count_def k eq by (simp add: registered_def)
  with inv block(4) show ?thesis unfolding inv_struct_def k eq
    by (auto simp: call_ok_def nth_list_update)
next
  case (return cid')
  then have k: "k = c0" using caller_index[OF inv] by simp
  with inv return(4) show ?thesis unfolding inv_struct_def k
    by (auto simp: call_ok_def nth_list_update)
qed

lemma nsent_next_send:
  assumes "0 \<le> bi" "bi < d" "0 \<le> bj" "bj < d"
  shows "nsent d (next_send a b c d cid bi bj) = bi * d + bj + 1"
proof (cases "bj + 1 < d")
  case True
  then show ?thesis by (simp add: nsent_def next_send_def)
next
  case False
  with assms have bj: "bj = d - 1" by simp
  show ?thesis
  proof (cases "bi + 1 < d")
    case True
    with False bj show ?thesis by (simp add: nsent_def next_send_def algebra_simps)
  next
    case f: False
    with assms have bi: "bi = d - 1" by simp
    have "d * d = (d - 1) * d + (d - 1) + 1" by (simp add: algebra_simps)
    with False f show ?thesis unfolding bi bj by (simp add: nsent_def next_send_def)
  qed
qed

lemma registered_next_send: "registered (next_send a b c d cid bi bj)"
  by (simp add: registered_def next_send_def)

lemma started_next_send: "started (next_send a b c d cid bi bj)"
  by (simp add: started_def next_send_def)

lemma count_block:
  assumes "inv_count d cid c0 f0 s" "w < length (threads s)" "threads s ! w = W_GetJob"
  shows "inv_count d cid c0 f0 (s\<lparr>threads := (threads s)[w := W_Blocked]\<rparr>)"
  using assms unfolding inv_count_def
  by (simp add: filter_length_update)

lemma count_take:
  assumes "inv_count d cid c0 f0 s" "w < length (threads s)" "threads s ! w = W_GetJob"
    "jobQueue (buffer s) = p # q"
  shows "inv_count d cid c0 f0 (s\<lparr>buffer := (buffer s)\<lparr>jobQueue := q\<rparr>, threads := (threads s)[w := W_Compute p]\<rparr>)"
  using assms unfolding inv_count_def
  by (simp add: filter_length_update)

lemma count_compute:
  assumes "inv_count d cid c0 f0 s" "w < length (threads s)" "threads s ! w = W_Compute p"
  shows "inv_count d cid c0 f0 (s\<lparr>mem := m, threads := (threads s)[w := W_Report p]\<rparr>)"
  using assms unfolding inv_count_def
  by (simp add: filter_length_update)

section \<open>The invariants are kept: the counters\<close>

lemma held_worker_legit:
  assumes "inv_struct a b c d cid c0 m0 s" "w < length (threads s)" "held (threads s ! w) = Some p"
  shows "legit a b c d cid p"
proof -
  have "threads s ! w \<in> set (threads s)" using assms(2) by simp
  with assms(1,3) show ?thesis unfolding inv_struct_def by blast
qed

lemma holder_counts:
  assumes "w < length ts" "holds (ts ! w)"
  shows "1 \<le> int (length (filter holds ts))"
proof -
  have "ts ! w \<in> set (filter holds ts)" using assms by simp
  then have "0 < length (filter holds ts)" by (rule length_pos_if_in_set)
  then show ?thesis by linarith
qed

lemma holder_registered:
  assumes cnt: "inv_count d cid c0 f0 s" and w: "w < length (threads s)" "holds (threads s ! w)"
  shows "registered (calls s ! c0)"
proof -
  from holder_counts[OF w] have h: "1 \<le> int (length (filter holds (threads s)))" .
  show ?thesis
  proof (cases "calls s ! c0")
    case (M_Start a b c d')
    with cnt h show ?thesis unfolding inv_count_def by (simp add: nsent_def)
  next
    case (M_Register a b c d')
    with cnt h show ?thesis unfolding inv_count_def by (simp add: nsent_def)
  next
    case M_Returned
    with cnt h show ?thesis unfolding inv_count_def by (simp add: nsent_def)
  qed (simp_all add: registered_def)
qed

lemma count_report:
  assumes inv: "inv_struct a b c d cid c0 m0 s" and cnt: "inv_count d cid c0 f0 s"
    and w: "w < length (threads s)" "threads s ! w = W_Report p"
    and jc: "jobCompleted (buffer s) (computationId p) = Inr bf"
    and sig: "signal_jobDone k (s\<lparr>buffer := bf, threads := (threads s)[w := W_GetJob]\<rparr>) = Some s'"
  shows "inv_count d cid c0 f0 s'"
proof -
  let ?s1 = "s\<lparr>buffer := bf, threads := (threads s)[w := W_GetJob]\<rparr>"
  from held_worker_legit[OF inv w(1), of p] w(2) have "legit a b c d cid p" by simp
  then have pid: "computationId p = cid" by (auto elim: legitE)
  have hw: "holds (threads s ! w)" using w(2) by simp
  have reg: "registered (calls s ! c0)" using holder_registered[OF cnt w(1) hw] .
  note bf = jobCompleted_Inr(1)[OF jc, unfolded pid]
  have nh: "int (length (filter holds ((threads s)[w := W_GetJob]))) = int (length (filter holds (threads s))) - 1"
    using w by (simp add: filter_length_update)
  from cnt reg have fin: "jobsFinishedPerComputation (buffer s) cid = Some (nbJobFinished (buffer s) - f0)"
    and tot: "totalJobsPerComputation (buffer s) cid = Some (d * d)"
    and sum: "int (length (jobQueue (buffer s))) + int (length (filter holds (threads s))) +
        (nbJobFinished (buffer s) - f0) = nsent d (calls s ! c0)"
    and f0: "f0 \<le> nbJobFinished (buffer s)"
    unfolding inv_count_def by simp_all
  have st: "started (calls s ! c0)" "\<not> (\<exists>a b c d. calls s ! c0 = M_Register a b c d)" "calls s ! c0 \<noteq> M_Returned"
    using reg by (cases "calls s ! c0"; simp add: registered_def started_def)+
  have nb1: "nbJobFinished bf = nbJobFinished (buffer s) + 1"
    and q1: "jobQueue bf = jobQueue (buffer s)"
    and fin1: "jobsFinishedPerComputation bf cid = Some (nbJobFinished (buffer s) + 1 - f0)"
    and tot1: "totalJobsPerComputation bf cid = Some (d * d)"
    unfolding bf using fin tot by simp_all
  from sig show ?thesis
  proof (cases rule: signal_jobDone_cases)
    case nobody
    have nb: "\<And>t. calls s ! c0 \<noteq> M_Blocked cid t"
    proof
      fix t assume b: "calls s ! c0 = M_Blocked cid t"
      from inv have "c0 < length (calls s)" unfolding inv_struct_def by simp
      from blocked_call_ex[OF this b] nobody(1) show False by simp
    qed
    show ?thesis unfolding nobody(2) inv_count_def
      using nb1 q1 fin1 tot1 nh sum f0 st nb by simp
  next
    case (again cid' t)
    from again(1,2) have k: "k = c0" using blocked_index[OF inv, of k cid' t] by simp
    from again(2) have cs: "calls s ! c0 = M_Blocked cid' t" unfolding k by simp
    with inv have eq: "cid' = cid" "t = d * d" unfolding inv_struct_def by (simp_all add: call_ok_def)
    from again(3) have lt: "nbJobFinished (buffer s) + 1 - f0 < d * d"
      unfolding eq using fin1 by simp
    show ?thesis unfolding again(4) inv_count_def eq
      using nb1 q1 fin1 tot1 nh sum f0 st lt by simp
  next
    case (return cid' t)
    from return(1,2) have k: "k = c0" using blocked_index[OF inv, of k cid' t] by simp
    from return(2) have cs: "calls s ! c0 = M_Blocked cid' t" unfolding k by simp
    with inv have eq: "cid' = cid" "t = d * d" unfolding inv_struct_def by (simp_all add: call_ok_def)
    from return(3) have ge: "d * d \<le> nbJobFinished (buffer s) + 1 - f0"
      unfolding eq using fin1 by simp
    from sum cs have sum': "int (length (jobQueue (buffer s))) + int (length (filter holds (threads s))) +
        (nbJobFinished (buffer s) - f0) = d * d" by (simp add: nsent_def)
    from holder_counts[OF w(1) hw] have h1: "1 \<le> int (length (filter holds (threads s)))" .
    from ge sum' h1 have e: "nbJobFinished (buffer s) + 1 - f0 = d * d"
      and q0: "length (jobQueue (buffer s)) = 0" and h0: "int (length (filter holds (threads s))) = 1"
      by linarith+
    from inv have c0: "c0 < length (calls s)" unfolding inv_struct_def by simp
    show ?thesis unfolding return(4) inv_count_def k
      using nb1 q1 nh f0 e q0 h0 c0 by (simp add: nsent_def registered_def started_def)
  qed
qed

lemma count_worker:
  fixes s :: "('a::{zero,plus,times}) system"
  assumes inv: "inv_struct a b c d cid c0 m0 s" and cnt: "inv_count d cid c0 f0 s"
    and st: "workerThread w k s = Next s'"
  shows "inv_count d cid c0 f0 s'"
  using st
proof (cases rule: workerThread_cases)
  case block
  then show ?thesis using count_block[OF cnt] by simp
next
  case exit
  with inv show ?thesis unfolding inv_struct_def by simp
next
  case (take p q)
  then show ?thesis using count_take[OF cnt] by simp
next
  case (compute p m)
  then show ?thesis using count_compute[OF cnt] by simp
next
  case (report p bf)
  from count_report[OF inv cnt report] show ?thesis .
qed

lemma count_send:
  assumes inv: "inv_struct a b c d cid c0 m0 s" and cnt: "inv_count d cid c0 f0 s"
    and cs: "calls s ! c0 = M_Send a b c d cid bi bj"
    and sig: "signal_jobAvailable k (s\<lparr>buffer := (buffer s)\<lparr>jobQueue := jobQueue (buffer s) @ [job a b c d cid bi bj]\<rparr>,
           calls := (calls s)[c0 := next_send a b c d cid bi bj]\<rparr>) = Some s'"
  shows "inv_count d cid c0 f0 s'"
proof -
  from inv cs have bnd: "0 \<le> bi" "bi < d" "0 \<le> bj" "bj < d"
    unfolding inv_struct_def by (simp_all add: call_ok_def)
  note ns = nsent_next_send[OF bnd, of a b c cid]
  note rg = registered_next_send[of a b c d cid bi bj] and sg = started_next_send[of a b c d cid bi bj]
  have nr: "\<And>a' b' c' d'. next_send a b c d cid bi bj \<noteq> M_Register a' b' c' d'"
    "\<And>t. next_send a b c d cid bi bj \<noteq> M_Blocked cid t" "next_send a b c d cid bi bj \<noteq> M_Returned"
    by (simp_all add: next_send_def)
  from inv have c0: "c0 < length (calls s)" unfolding inv_struct_def by simp
  from cnt cs have fin: "jobsFinishedPerComputation (buffer s) cid = Some (nbJobFinished (buffer s) - f0)"
    and tot: "totalJobsPerComputation (buffer s) cid = Some (d * d)"
    and sum: "int (length (jobQueue (buffer s))) + int (length (filter holds (threads s))) +
        (nbJobFinished (buffer s) - f0) = bi * d + bj"
    and f0: "f0 \<le> nbJobFinished (buffer s)"
    unfolding inv_count_def by (simp_all add: registered_def nsent_def)
  from sig show ?thesis
  proof (cases rule: signal_jobAvailable_cases)
    case nobody
    show ?thesis unfolding nobody(2) inv_count_def
      using c0 ns rg sg nr fin tot sum f0 by simp
  next
    case again
    then show ?thesis by simp
  next
    case stop
    then show ?thesis by simp
  next
    case (take p q)
    from take(1) have kl: "k < length (threads s)" by simp
    from take(2) have kb: "threads s ! k = W_Blocked" by simp
    from kl have "threads s ! k \<in> set (threads s)" by simp
    with kb have "W_Blocked \<in> set (threads s)" by simp
    with inv have "jobQueue (buffer s) = []" unfolding inv_struct_def by simp
    with take(3) have pq: "p = job a b c d cid bi bj" "q = []" and q0: "jobQueue (buffer s) = []" by simp_all
    have nh: "int (length (filter holds ((threads s)[k := W_Compute p]))) = int (length (filter holds (threads s))) + 1"
      using kl kb by (simp add: filter_length_update)
    show ?thesis unfolding take(4) inv_count_def
      using c0 ns rg sg nr fin tot sum f0 pq q0 nh by simp
  qed
qed

lemma count_caller:
  fixes s :: "('a::{zero,plus,times}) system"
  assumes inv: "inv_struct a b c d cid c0 m0 s" and cnt: "inv_count d cid c0 f0 s"
    and st: "multiply_step k j s = Next s'" and d: "0 < d"
  shows "inv_count d cid c0 f0 s'"
  using st
proof (cases rule: multiply_step_cases)
  case (start a' b' c' d')
  then have k: "k = c0" using caller_index[OF inv] by simp
  from cnt start(1,2) show ?thesis unfolding start(5) inv_count_def k
    by (simp add: nsent_def registered_def started_def)
next
  case (register a' b' c' d')
  then have k: "k = c0" using caller_index[OF inv] by simp
  with inv register(2) have eq: "a' = a" "b' = b" "c' = c" "d' = d"
    unfolding inv_struct_def by (simp_all add: call_ok_def)
  from cnt register(2) have nx: "nextComputationId (buffer s) = cid"
    and sum: "int (length (jobQueue (buffer s))) + int (length (filter holds (threads s))) +
        (nbJobFinished (buffer s) - f0) = 0"
    and f0: "f0 \<le> nbJobFinished (buffer s)"
    unfolding inv_count_def k by (auto simp: nsent_def)
  from sum f0 have z: "nbJobFinished (buffer s) - f0 = 0" by linarith
  from cnt register(1) d z show ?thesis unfolding register(4) inv_count_def k eq nx
    using sum by (simp add: nsent_def registered_def started_def)
next
  case (send a' b' c' d' cid' bi bj)
  then have k: "k = c0" using caller_index[OF inv] by simp
  with inv send(2) have eq: "a' = a" "b' = b" "c' = c" "d' = d" "cid' = cid"
    unfolding inv_struct_def by (simp_all add: call_ok_def)
  from send(2,3) show ?thesis unfolding k eq by (rule count_send[OF inv cnt])
next
  case (block cid')
  then have k: "k = c0" using caller_index[OF inv] by simp
  with inv block(2) have eq: "cid' = cid"
    unfolding inv_struct_def by (simp_all add: call_ok_def)
  from cnt block(2) have fin: "jobsFinishedPerComputation (buffer s) cid = Some (nbJobFinished (buffer s) - f0)"
    and tot: "totalJobsPerComputation (buffer s) cid = Some (d * d)"
    unfolding inv_count_def k eq by (simp_all add: registered_def)
  from block(3) have lt: "nbJobFinished (buffer s) - f0 < d * d" unfolding eq using fin tot by simp
  from cnt block(1,2) lt fin tot show ?thesis unfolding block(4) inv_count_def k eq
    by (simp add: nsent_def registered_def started_def)
next
  case (return cid')
  then have k: "k = c0" using caller_index[OF inv] by simp
  with inv return(2) have eq: "cid' = cid"
    unfolding inv_struct_def by (simp_all add: call_ok_def)
  from cnt return(2) have fin: "jobsFinishedPerComputation (buffer s) cid = Some (nbJobFinished (buffer s) - f0)"
    and tot: "totalJobsPerComputation (buffer s) cid = Some (d * d)"
    and sum: "int (length (jobQueue (buffer s))) + int (length (filter holds (threads s))) +
        (nbJobFinished (buffer s) - f0) = d * d"
    unfolding inv_count_def k eq by (simp_all add: registered_def nsent_def)
  from return(3) have ge: "d * d \<le> nbJobFinished (buffer s) - f0" unfolding eq using fin tot by simp
  with sum have e: "nbJobFinished (buffer s) - f0 = d * d" by linarith
  from cnt return(1,2) e show ?thesis unfolding return(4) inv_count_def k eq
    by (simp add: nsent_def registered_def started_def)
qed

section \<open>The invariants are kept: the cells of the result\<close>

lemma cellsI:
  assumes "started (calls s ! c0) \<Longrightarrow> outside_zero n d (mem s c)"
    and "\<And>bi bj. 0 \<le> bi \<Longrightarrow> bi < d \<Longrightarrow> 0 \<le> bj \<Longrightarrow> bj < d \<Longrightarrow> is_sent (calls s ! c0) bi bj \<Longrightarrow>
          job a b c d cid bi bj \<notin> set (jobQueue (buffer s)) \<Longrightarrow>
          W_Compute (job a b c d cid bi bj) \<notin> set (threads s) \<Longrightarrow>
          block_done n d MA MB (mem s c) bi bj"
  shows "inv_cells a b c d cid c0 n MA MB s"
  using assms unfolding inv_cells_def by blast

lemma cells_outside:
  "inv_cells a b c d cid c0 n MA MB s \<Longrightarrow> started (calls s ! c0) \<Longrightarrow> outside_zero n d (mem s c)"
  unfolding inv_cells_def by blast

lemma cells_done:
  "inv_cells a b c d cid c0 n MA MB s \<Longrightarrow> 0 \<le> bi \<Longrightarrow> bi < d \<Longrightarrow> 0 \<le> bj \<Longrightarrow> bj < d \<Longrightarrow>
   is_sent (calls s ! c0) bi bj \<Longrightarrow> job a b c d cid bi bj \<notin> set (jobQueue (buffer s)) \<Longrightarrow>
   W_Compute (job a b c d cid bi bj) \<notin> set (threads s) \<Longrightarrow> block_done n d MA MB (mem s c) bi bj"
  unfolding inv_cells_def by blast

text \<open>A worker that leaves a state other than \<open>W_Compute\<close> for one that is not \<open>W_Compute\<close>.\<close>

lemma not_computing_update:
  assumes "W_Compute p \<notin> set (ts[w := t])" "\<And>q. ts ! w \<noteq> W_Compute q"
  shows "W_Compute p \<notin> set ts"
  using assms mem_update_other[of "W_Compute p" ts w t] by blast

lemma cells_threads:
  assumes "inv_cells a b c d cid c0 n MA MB s" "\<And>q. threads s ! w \<noteq> W_Compute q"
  shows "inv_cells a b c d cid c0 n MA MB (s\<lparr>threads := (threads s)[w := t]\<rparr>)"
proof (rule cellsI)
  assume "started (calls (s\<lparr>threads := (threads s)[w := t]\<rparr>) ! c0)"
  then show "outside_zero n d (mem (s\<lparr>threads := (threads s)[w := t]\<rparr>) c)"
    using cells_outside[OF assms(1)] by simp
next
  fix bi bj
  assume h: "0 \<le> bi" "bi < d" "0 \<le> bj" "bj < d" "is_sent (calls (s\<lparr>threads := (threads s)[w := t]\<rparr>) ! c0) bi bj"
    "job a b c d cid bi bj \<notin> set (jobQueue (buffer (s\<lparr>threads := (threads s)[w := t]\<rparr>)))"
    "W_Compute (job a b c d cid bi bj) \<notin> set (threads (s\<lparr>threads := (threads s)[w := t]\<rparr>))"
  from h(7) have "W_Compute (job a b c d cid bi bj) \<notin> set (threads s)"
    using not_computing_update[OF _ assms(2)] by simp
  with h show "block_done n d MA MB (mem (s\<lparr>threads := (threads s)[w := t]\<rparr>) c) bi bj"
    using cells_done[OF assms(1), of bi bj] by simp
qed

lemma cells_take:
  assumes inv: "inv_cells a b c d cid c0 n MA MB s" and w: "w < length (threads s)" "threads s ! w = W_GetJob"
    and q: "jobQueue (buffer s) = p # q"
  shows "inv_cells a b c d cid c0 n MA MB
     (s\<lparr>buffer := (buffer s)\<lparr>jobQueue := q\<rparr>, threads := (threads s)[w := W_Compute p]\<rparr>)"
    (is "inv_cells a b c d cid c0 n MA MB ?s'")
proof (rule cellsI)
  assume "started (calls ?s' ! c0)"
  then show "outside_zero n d (mem ?s' c)" using cells_outside[OF inv] by simp
next
  fix bi bj
  assume h: "0 \<le> bi" "bi < d" "0 \<le> bj" "bj < d" "is_sent (calls ?s' ! c0) bi bj"
    "job a b c d cid bi bj \<notin> set (jobQueue (buffer ?s'))"
    "W_Compute (job a b c d cid bi bj) \<notin> set (threads ?s')"
  have "W_Compute p \<in> set ((threads s)[w := W_Compute p])" using w(1) by (simp add: set_update_memI)
  with h(7) have ne: "job a b c d cid bi bj \<noteq> p" by auto
  have nc: "W_Compute (job a b c d cid bi bj) \<notin> set (threads s)"
    using h(7) w(2) not_computing_update[of "job a b c d cid bi bj" "threads s" w "W_Compute p"] by simp
  from h(6) ne q have "job a b c d cid bi bj \<notin> set (jobQueue (buffer s))" by simp
  with h nc show "block_done n d MA MB (mem ?s' c) bi bj"
    using cells_done[OF inv, of bi bj] by simp
qed

lemma block_upper: "0 \<le> (bs::int) \<Longrightarrow> b < d \<Longrightarrow> (b + 1) * bs \<le> d * bs"
  by (rule mult_right_mono) simp_all

lemma cells_compute:
  fixes s :: "('a::{zero,plus,times}) system"
  assumes st: "inv_struct a b c d cid c0 m0 s"
    and inv: "inv_cells a b c d cid c0 (int (msize (m0 a))) (m0 a) (m0 b) s"
    and w: "w < length (threads s)" "threads s ! w = W_Compute p"
    and cb: "computeBlock (mem s) p = Inr m" and d: "0 < d" and ca: "c \<noteq> a" and cb': "c \<noteq> b"
  shows "inv_cells a b c d cid c0 (int (msize (m0 a))) (m0 a) (m0 b)
     (s\<lparr>mem := m, threads := (threads s)[w := W_Report p]\<rparr>)"
    (is "inv_cells a b c d cid c0 ?n ?MA ?MB ?s'")
proof -
  from held_worker_legit[OF st w(1), of p] w(2) have "legit a b c d cid p" by simp
  then obtain bi0 bj0 where b0: "0 \<le> bi0" "bi0 < d" "0 \<le> bj0" "bj0 < d" and p: "p = job a b c d cid bi0 bj0"
    by (rule legitE)
  from st ca cb' have ma: "mem s a = m0 a" and mb: "mem s b = m0 b"
    unfolding inv_struct_def by auto
  let ?bs = "?n div d"
  have bs0: "0 \<le> ?bs" using d by (simp add: pos_imp_zdiv_nonneg_iff)
  from computeBlock_effect[OF d ca cb', of "mem s" cid bi0 bj0] cb
  have E: "\<And>x y. element (m c) x y =
        (if bj0 * ?bs \<le> x \<and> x < (bj0 + 1) * ?bs \<and> bi0 * ?bs \<le> y \<and> y < (bi0 + 1) * ?bs
         then kernel_value ?MA ?MB (d * ?bs) x y else element (mem s c) x y)"
    unfolding p ma mb by auto
  show ?thesis
  proof (rule cellsI)
    assume "started (calls ?s' ! c0)"
    then have oz: "outside_zero ?n d (mem s c)" using cells_outside[OF inv] by simp
    have "outside_zero ?n d (m c)"
      unfolding outside_zero_def
    proof (intro allI impI)
      fix x y
      assume h: "0 \<le> x \<and> x < ?n \<and> 0 \<le> y \<and> y < ?n \<and> (d * ?bs \<le> x \<or> d * ?bs \<le> y)"
      from block_upper[OF bs0 b0(2)] block_upper[OF bs0 b0(4)] h
      have nb: "\<not> (bj0 * ?bs \<le> x \<and> x < (bj0 + 1) * ?bs \<and> bi0 * ?bs \<le> y \<and> y < (bi0 + 1) * ?bs)"
        by linarith
      have "element (m c) x y = element (mem s c) x y" by (subst E) (rule if_not_P[OF nb])
      with oz h show "element (m c) x y = 0" unfolding outside_zero_def by simp
    qed
    then show "outside_zero ?n d (mem ?s' c)" by simp
  next
    fix bi bj
    assume h: "0 \<le> bi" "bi < d" "0 \<le> bj" "bj < d" "is_sent (calls ?s' ! c0) bi bj"
      "job a b c d cid bi bj \<notin> set (jobQueue (buffer ?s'))"
      "W_Compute (job a b c d cid bi bj) \<notin> set (threads ?s')"
    have "block_done ?n d ?MA ?MB (m c) bi bj"
    proof (cases "job a b c d cid bi bj = p")
      case True
      then have "bi = bi0" "bj = bj0" unfolding p by (simp_all add: job_inject)
      then show ?thesis unfolding block_done_def using E by simp
    next
      case False
      then have "threads s ! w \<noteq> W_Compute (job a b c d cid bi bj)" using w(2) by simp
      with h(7) have nc: "W_Compute (job a b c d cid bi bj) \<notin> set (threads s)"
        using mem_update_other[of "W_Compute (job a b c d cid bi bj)" "threads s" w "W_Report p"] by auto
      from h nc have "block_done ?n d ?MA ?MB (mem s c) bi bj"
        using cells_done[OF inv, of bi bj] by simp
      then show ?thesis unfolding block_done_def using E by simp
    qed
    then show "block_done ?n d ?MA ?MB (mem ?s' c) bi bj" by simp
  qed
qed

lemma cells_frame:
  assumes inv: "inv_cells a b c d cid c0 n MA MB s"
    and "mem s' c = mem s c" "jobQueue (buffer s') = jobQueue (buffer s)" "threads s' = threads s"
    and "started (calls s' ! c0) \<Longrightarrow> started (calls s ! c0)"
    and "\<And>bi bj. is_sent (calls s' ! c0) bi bj \<Longrightarrow> is_sent (calls s ! c0) bi bj"
  shows "inv_cells a b c d cid c0 n MA MB s'"
proof (rule cellsI)
  assume "started (calls s' ! c0)"
  then show "outside_zero n d (mem s' c)" using cells_outside[OF inv] assms(2,5) by simp
next
  fix bi bj
  assume h: "0 \<le> bi" "bi < d" "0 \<le> bj" "bj < d" "is_sent (calls s' ! c0) bi bj"
    "job a b c d cid bi bj \<notin> set (jobQueue (buffer s'))"
    "W_Compute (job a b c d cid bi bj) \<notin> set (threads s')"
  then show "block_done n d MA MB (mem s' c) bi bj"
    using cells_done[OF inv, of bi bj] assms(2,3,4,6) by simp
qed

lemma cells_report:
  assumes st: "inv_struct a b c d cid c0 m0 s" and inv: "inv_cells a b c d cid c0 n MA MB s"
    and w: "w < length (threads s)" "threads s ! w = W_Report p"
    and jc: "jobCompleted (buffer s) i = Inr bf"
    and sig: "signal_jobDone k (s\<lparr>buffer := bf, threads := (threads s)[w := W_GetJob]\<rparr>) = Some s'"
  shows "inv_cells a b c d cid c0 n MA MB s'"
proof -
  let ?s0 = "s\<lparr>threads := (threads s)[w := W_GetJob]\<rparr>"
  let ?s1 = "s\<lparr>buffer := bf, threads := (threads s)[w := W_GetJob]\<rparr>"
  note bf = jobCompleted_Inr(1)[OF jc]
  have i0: "inv_cells a b c d cid c0 n MA MB ?s0"
    using w(2) by (intro cells_threads[OF inv]) simp
  have i1: "inv_cells a b c d cid c0 n MA MB ?s1"
    by (rule cells_frame[OF i0]) (simp_all add: bf)
  from st have c0: "c0 < length (calls s)" unfolding inv_struct_def by simp
  from sig show ?thesis
  proof (cases rule: signal_jobDone_cases)
    case nobody
    with i1 show ?thesis by simp
  next
    case (again cid' t)
    show ?thesis unfolding again(4) by (rule cells_frame[OF i1]) simp_all
  next
    case (return cid' t)
    from return(1,2) have k: "k = c0" using blocked_index[OF st, of k cid' t] by simp
    from return(2) have cs: "calls s ! c0 = M_Blocked cid' t" unfolding k by simp
    show ?thesis unfolding return(4) k
      by (rule cells_frame[OF i1]) (use cs c0 in \<open>simp_all add: started_def is_sent_def\<close>)
  qed
qed

lemma cells_worker:
  fixes s :: "('a::{zero,plus,times}) system"
  assumes st: "inv_struct a b c d cid c0 m0 s"
    and inv: "inv_cells a b c d cid c0 (int (msize (m0 a))) (m0 a) (m0 b) s"
    and step: "workerThread w k s = Next s'" and d: "0 < d" and ca: "c \<noteq> a" and cb: "c \<noteq> b"
  shows "inv_cells a b c d cid c0 (int (msize (m0 a))) (m0 a) (m0 b) s'"
  using step
proof (cases rule: workerThread_cases)
  case block
  show ?thesis unfolding block(5) using block(2) by (intro cells_threads[OF inv]) simp
next
  case exit
  with st show ?thesis unfolding inv_struct_def by simp
next
  case (take p q)
  show ?thesis unfolding take(4) by (rule cells_take[OF inv take(1,2,3)])
next
  case (compute p m)
  show ?thesis unfolding compute(4) by (rule cells_compute[OF st inv compute(1,2,3) d ca cb])
next
  case (report p bf)
  show ?thesis by (rule cells_report[OF st inv report])
qed

lemma is_sent_next_send:
  assumes "0 \<le> bi" "bi < d" "0 \<le> bj" "bj < d" "0 \<le> bi'" "bi' < d" "0 \<le> bj'" "bj' < d"
    "is_sent (next_send a b c d cid bi bj) bi' bj'"
  shows "is_sent (M_Send a b c d cid bi bj) bi' bj' \<or> (bi' = bi \<and> bj' = bj)"
  using assms by (auto simp: is_sent_def next_send_def split: if_splits)

lemma cells_send:
  assumes st: "inv_struct a b c d cid c0 m0 s" and inv: "inv_cells a b c d cid c0 n MA MB s"
    and cs: "calls s ! c0 = M_Send a b c d cid bi bj"
    and sig: "signal_jobAvailable k (s\<lparr>buffer := (buffer s)\<lparr>jobQueue := jobQueue (buffer s) @ [job a b c d cid bi bj]\<rparr>,
           calls := (calls s)[c0 := next_send a b c d cid bi bj]\<rparr>) = Some s'"
  shows "inv_cells a b c d cid c0 n MA MB s'"
proof -
  from st cs have bnd: "0 \<le> bi" "bi < d" "0 \<le> bj" "bj < d"
    unfolding inv_struct_def by (simp_all add: call_ok_def)
  from st have c0: "c0 < length (calls s)" unfolding inv_struct_def by simp
  have stt: "started (calls s ! c0)" using cs by (simp add: started_def)
  have key: "inv_cells a b c d cid c0 n MA MB s'"
    if m: "mem s' c = mem s c" and cl: "calls s' ! c0 = next_send a b c d cid bi bj"
      and new: "job a b c d cid bi bj \<in> set (jobQueue (buffer s')) \<or> W_Compute (job a b c d cid bi bj) \<in> set (threads s')"
      and old: "\<And>p. p \<notin> set (jobQueue (buffer s')) \<Longrightarrow> W_Compute p \<notin> set (threads s') \<Longrightarrow>
            p \<notin> set (jobQueue (buffer s)) \<and> W_Compute p \<notin> set (threads s)"
    for s' :: "'a system"
  proof (rule cellsI)
    show "outside_zero n d (mem s' c)" using cells_outside[OF inv stt] m by simp
  next
    fix bi' bj'
    assume h: "0 \<le> bi'" "bi' < d" "0 \<le> bj'" "bj' < d" "is_sent (calls s' ! c0) bi' bj'"
      "job a b c d cid bi' bj' \<notin> set (jobQueue (buffer s'))"
      "W_Compute (job a b c d cid bi' bj') \<notin> set (threads s')"
    from h(5) have "is_sent (M_Send a b c d cid bi bj) bi' bj' \<or> (bi' = bi \<and> bj' = bj)"
      unfolding cl by (rule is_sent_next_send[OF bnd h(1-4)])
    moreover have "\<not> (bi' = bi \<and> bj' = bj)" using new h(6,7) by auto
    ultimately have "is_sent (calls s ! c0) bi' bj'" unfolding cs by simp
    moreover from old[OF h(6,7)] have "job a b c d cid bi' bj' \<notin> set (jobQueue (buffer s))"
      "W_Compute (job a b c d cid bi' bj') \<notin> set (threads s)" by simp_all
    ultimately show "block_done n d MA MB (mem s' c) bi' bj'"
      using cells_done[OF inv h(1-4)] m by simp
  qed
  from sig show ?thesis
  proof (cases rule: signal_jobAvailable_cases)
    case nobody
    show ?thesis unfolding nobody(2) by (rule key) (use c0 in simp_all)
  next
    case again
    then show ?thesis by simp
  next
    case stop
    then show ?thesis by simp
  next
    case (take p q)
    from take(1) have kl: "k < length (threads s)" by simp
    from take(2) have kb: "threads s ! k = W_Blocked" by simp
    from kl have "threads s ! k \<in> set (threads s)" by simp
    with kb have "W_Blocked \<in> set (threads s)" by simp
    with st have q0: "jobQueue (buffer s) = []" unfolding inv_struct_def by simp
    with take(3) have pq: "p = job a b c d cid bi bj" "q = []" by simp_all
    show ?thesis unfolding take(4)
    proof (rule key, goal_cases)
      case 1
      then show ?case by simp
    next
      case 2
      then show ?case using c0 by simp
    next
      case 3
      then show ?case using kl pq by (simp add: set_update_memI)
    next
      case (4 p')
      then show ?case using q0 kb not_computing_update[of p' "threads s" k "W_Compute p"] by simp
    qed
  qed
qed

lemma cells_caller:
  fixes s :: "('a::{zero,plus,times}) system"
  assumes st: "inv_struct a b c d cid c0 m0 s"
    and inv: "inv_cells a b c d cid c0 (int (msize (m0 a))) (m0 a) (m0 b) s"
    and step: "multiply_step k j s = Next s'" and d: "0 < d" and ca: "c \<noteq> a"
  shows "inv_cells a b c d cid c0 (int (msize (m0 a))) (m0 a) (m0 b) s'"
  using step
proof (cases rule: multiply_step_cases)
  case (start a' b' c' d')
  then have k: "k = c0" using caller_index[OF st] by simp
  with st start(2) have eq: "a' = a" "b' = b" "c' = c" "d' = d"
    unfolding inv_struct_def by (simp_all add: call_ok_def)
  from st ca have ma: "mem s a = m0 a" unfolding inv_struct_def by auto
  from st have c0: "c0 < length (calls s)" unfolding inv_struct_def by simp
  have oz: "outside_zero (int (msize (m0 a))) d (zero_fill (mem s) c (int (msize (m0 a))) c)"
    unfolding outside_zero_def using zero_fill_effect[of c "mem s" "int (msize (m0 a))"] by simp
  show ?thesis unfolding start(5) k eq ma
    by (rule cellsI) (use oz c0 in \<open>simp_all add: is_sent_def\<close>)
next
  case (register a' b' c' d')
  then have k: "k = c0" using caller_index[OF st] by simp
  with st register(2) have eq: "a' = a" "b' = b" "c' = c" "d' = d"
    unfolding inv_struct_def by (simp_all add: call_ok_def)
  from st have c0: "c0 < length (calls s)" unfolding inv_struct_def by simp
  from register(2) have stt: "started (calls s ! c0)" unfolding k by (simp add: started_def)
  show ?thesis unfolding register(4) k eq
  proof (rule cellsI, goal_cases)
    case 1
    then show ?case using cells_outside[OF inv stt] by simp
  next
    case (2 bi bj)
    then show ?case using c0 d by (simp add: is_sent_def)
  qed
next
  case (send a' b' c' d' cid' bi bj)
  then have k: "k = c0" using caller_index[OF st] by simp
  with st send(2) have eq: "a' = a" "b' = b" "c' = c" "d' = d" "cid' = cid"
    unfolding inv_struct_def by (simp_all add: call_ok_def)
  from send(2,3) show ?thesis unfolding k eq by (rule cells_send[OF st inv])
next
  case (block cid')
  then have k: "k = c0" using caller_index[OF st] by simp
  from st have c0: "c0 < length (calls s)" unfolding inv_struct_def by simp
  show ?thesis unfolding block(4) k
    by (rule cells_frame[OF inv]) (use block(2) c0 k in \<open>simp_all add: started_def is_sent_def\<close>)
next
  case (return cid')
  then have k: "k = c0" using caller_index[OF st] by simp
  from st have c0: "c0 < length (calls s)" unfolding inv_struct_def by simp
  show ?thesis unfolding return(4) k
    by (rule cells_frame[OF inv]) (use return(2) c0 k in \<open>simp_all add: started_def is_sent_def\<close>)
qed

section \<open>The invariants along a schedule\<close>

lemma inv_step:
  fixes s :: "('a::{zero,plus,times}) system"
  assumes "inv_struct a b c d cid c0 m0 s" "inv_count d cid c0 f0 s"
    "inv_cells a b c d cid c0 (int (msize (m0 a))) (m0 a) (m0 b) s"
    and "step e s = Next s'" "engine_event e" "0 < d" "c \<noteq> a" "c \<noteq> b"
  shows "inv_struct a b c d cid c0 m0 s' \<and> inv_count d cid c0 f0 s' \<and>
    inv_cells a b c d cid c0 (int (msize (m0 a))) (m0 a) (m0 b) s'"
proof (cases e)
  case (Worker w k)
  with assms(4) have st: "workerThread w k s = Next s'" by simp
  show ?thesis
    using struct_worker[OF assms(1) st assms(6,7,8)] count_worker[OF assms(1,2) st]
      cells_worker[OF assms(1,3) st assms(6,7,8)] by simp
next
  case (Caller k j)
  with assms(4) have st: "multiply_step k j s = Next s'" by simp
  show ?thesis
    using struct_caller[OF assms(1,2) st assms(6)] count_caller[OF assms(1,2) st assms(6)]
      cells_caller[OF assms(1,3) st assms(6,7)] by simp
qed (use assms(5) in \<open>simp_all add: engine_event_def\<close>)

lemma inv_run:
  fixes s :: "('a::{zero,plus,times}) system"
  assumes "run es s = Next s'" "list_all engine_event es" "0 < d" "c \<noteq> a" "c \<noteq> b"
    "inv_struct a b c d cid c0 m0 s" "inv_count d cid c0 f0 s"
    "inv_cells a b c d cid c0 (int (msize (m0 a))) (m0 a) (m0 b) s"
  shows "inv_struct a b c d cid c0 m0 s' \<and> inv_count d cid c0 f0 s' \<and>
    inv_cells a b c d cid c0 (int (msize (m0 a))) (m0 a) (m0 b) s'"
  using assms(1,2,6,7,8)
proof (induction es arbitrary: s)
  case Nil
  then show ?case by simp
next
  case (Cons e es)
  from Cons.prems(1) obtain s1 where s1: "step e s = Next s1" "run es s1 = Next s'"
    by (cases "step e s") simp_all
  from Cons.prems(2) have ev: "engine_event e" "list_all engine_event es" by simp_all
  from inv_step[OF Cons.prems(3,4,5) s1(1) ev(1) assms(3,4,5)]
  show ?case using Cons.IH[OF s1(2) ev(2)] by blast
qed

lemma inv_init:
  fixes s0 :: "('a::{zero,plus,times}) system"
  assumes "quiescent s0"
  shows "inv_struct a b c d (nextComputationId (buffer s0)) (length (calls s0)) (mem s0) (multiply a b c d s0)"
    and "inv_count d (nextComputationId (buffer s0)) (length (calls s0)) (nbJobFinished (buffer s0)) (multiply a b c d s0)"
    and "inv_cells a b c d (nextComputationId (buffer s0)) (length (calls s0)) n MA MB (multiply a b c d s0)"
proof -
  from assms have q: "jobQueue (buffer s0) = []" "\<not> isTerminating (buffer s0)" "destructor s0 = D_Terminate"
    and t: "\<forall>t \<in> set (threads s0). t = W_GetJob \<or> t = W_Blocked"
    and cl: "\<forall>i < length (calls s0). calls s0 ! i = M_Returned"
    unfolding quiescent_def by (simp_all add: list_all_iff list_all_length)
  from t have ne: "W_Exited \<notin> set (threads s0)" and nh: "\<forall>t \<in> set (threads s0). held t = None"
    by auto
  from t have "filter holds (threads s0) = []" by (auto simp: filter_empty_conv)
  then have h0: "length (filter holds (threads s0)) = 0" by simp
  show "inv_struct a b c d (nextComputationId (buffer s0)) (length (calls s0)) (mem s0) (multiply a b c d s0)"
    unfolding inv_struct_def multiply_def using q cl ne nh
    by (simp add: nth_append call_ok_def)
  show "inv_count d (nextComputationId (buffer s0)) (length (calls s0)) (nbJobFinished (buffer s0)) (multiply a b c d s0)"
    unfolding inv_count_def multiply_def using q h0
    by (simp add: nsent_def registered_def started_def)
  show "inv_cells a b c d (nextComputationId (buffer s0)) (length (calls s0)) n MA MB (multiply a b c d s0)"
    unfolding inv_cells_def multiply_def
    by (simp add: started_def is_sent_def)
qed

lemma int_div_bounds:
  fixes bs x d :: int
  assumes "0 < bs" "0 \<le> x" "x < d * bs"
  shows "0 \<le> x div bs" "x div bs < d" "(x div bs) * bs \<le> x" "x < (x div bs + 1) * bs"
proof -
  have e: "x = bs * (x div bs) + x mod bs" by simp
  have m: "0 \<le> x mod bs" "x mod bs < bs" using assms(1) by simp_all
  show 1: "(x div bs) * bs \<le> x"
  proof -
    have "(x div bs) * bs = x - x mod bs" by (simp add: algebra_simps minus_mod_eq_mult_div)
    with m(1) show ?thesis by linarith
  qed
  show "x < (x div bs + 1) * bs"
  proof -
    have "(x div bs + 1) * bs = x - x mod bs + bs" by (simp add: algebra_simps minus_mod_eq_mult_div)
    with m(2) show ?thesis by linarith
  qed
  show "0 \<le> x div bs" using assms(1,2) by (simp add: pos_imp_zdiv_nonneg_iff)
  show "x div bs < d"
  proof (rule ccontr)
    assume "\<not> x div bs < d"
    then have "d \<le> x div bs" by simp
    then have "d * bs \<le> (x div bs) * bs" using assms(1) by (intro mult_right_mono) simp_all
    with 1 assms(3) show False by linarith
  qed
qed

lemma returned_cells:
  fixes s :: "('a::{zero,plus,times}) system"
  assumes st: "inv_struct a b c d cid c0 m0 s" and cnt: "inv_count d cid c0 f0 s"
    and cells: "inv_cells a b c d cid c0 n MA MB s"
    and ret: "calls s ! c0 = M_Returned" and d: "0 < d" and n: "0 \<le> n"
    and x: "0 \<le> x" "x < n" and y: "0 \<le> y" "y < n"
  shows "element (mem s c) x y =
    (if x < d * (n div d) \<and> y < d * (n div d) then kernel_value MA MB (d * (n div d)) x y else 0)"
proof -
  let ?bs = "n div d"
  have bs0: "0 \<le> ?bs" using d n by (simp add: pos_imp_zdiv_nonneg_iff)
  from cnt ret have "int (length (jobQueue (buffer s))) + int (length (filter holds (threads s))) = 0"
    unfolding inv_count_def by (simp add: nsent_def)
  then have "length (jobQueue (buffer s)) = 0" "length (filter holds (threads s)) = 0" by linarith+
  then have q: "jobQueue (buffer s) = []" and h: "filter holds (threads s) = []" by simp_all
  have nc: "W_Compute p \<notin> set (threads s)" for p
  proof
    assume "W_Compute p \<in> set (threads s)"
    then have "W_Compute p \<in> set (filter holds (threads s))" by simp
    with h show False by simp
  qed
  have stt: "started (calls s ! c0)" unfolding ret by (simp add: started_def)
  show ?thesis
  proof (cases "x < d * ?bs \<and> y < d * ?bs")
    case False
    then have "d * ?bs \<le> x \<or> d * ?bs \<le> y" by linarith
    with x y have "element (mem s c) x y = 0"
      using cells_outside[OF cells stt] unfolding outside_zero_def by blast
    then show ?thesis unfolding if_not_P[OF False] .
  next
    case True
    with x have bs: "0 < ?bs" using bs0 by (cases "?bs = 0") simp_all
    let ?bj = "x div ?bs" and ?bi = "y div ?bs"
    from True have tx: "x < d * ?bs" and ty: "y < d * ?bs" by simp_all
    note bx0 = int_div_bounds[OF bs x(1) tx] and by0 = int_div_bounds[OF bs y(1) ty]
    have bj: "0 \<le> ?bj" "?bj < d" using bx0(1,2) .
    have bi: "0 \<le> ?bi" "?bi < d" using by0(1,2) .
    have bx: "?bj * ?bs \<le> x" "x < (?bj + 1) * ?bs" using bx0(3,4) .
    have "by": "?bi * ?bs \<le> y" "y < (?bi + 1) * ?bs" using by0(3,4) .
    have "block_done n d MA MB (mem s c) ?bi ?bj"
      by (rule cells_done[OF cells bi bj]) (simp_all add: ret is_sent_def q nc)
    with bx "by" have "element (mem s c) x y = kernel_value MA MB (d * ?bs) x y"
      unfolding block_done_def by blast
    then show ?thesis unfolding if_P[OF True] .
  qed
qed

section \<open>The work left decreases\<close>

lemma wweight_simps [simp]:
  "wweight W_GetJob = 1" "wweight W_Blocked = 0" "wweight (W_Compute p) = 3" "wweight (W_Report p) = 2"
  "wweight W_Exited = 0"
  by (simp_all add: wweight_def)

lemma wweight_nonneg: "0 \<le> wweight t"
  by (cases t) simp_all

lemma sum_weights_nonneg: "0 \<le> sum_list (map wweight ts)"
  by (induction ts) (simp_all add: wweight_nonneg)

lemma sum_weights_le: "sum_list (map wweight ts) \<le> 3 * int (length ts)"
proof (induction ts)
  case Nil
  then show ?case by simp
next
  case (Cons t ts)
  have "wweight t \<le> 3" by (cases t) simp_all
  with Cons show ?case by simp
qed

lemma sum_list_update_weight:
  assumes "i < length ts"
  shows "sum_list (map wweight (ts[i := t])) = sum_list (map wweight ts) - wweight (ts ! i) + wweight t"
proof -
  have 1: "ts = take i ts @ ts ! i # drop (Suc i) ts" using assms by (rule id_take_nth_drop)
  have 2: "ts[i := t] = take i ts @ t # drop (Suc i) ts" using assms by (rule upd_conv_take_nth_drop)
  have "sum_list (map wweight ts) =
     sum_list (map wweight (take i ts)) + wweight (ts ! i) + sum_list (map wweight (drop (Suc i) ts))"
    by (subst 1) simp
  moreover have "sum_list (map wweight (ts[i := t])) =
     sum_list (map wweight (take i ts)) + wweight t + sum_list (map wweight (drop (Suc i) ts))"
    by (subst 2) simp
  ultimately show ?thesis by simp
qed

lemma nsent_bound:
  assumes "0 \<le> bi" "bi < d" "0 \<le> bj" "bj < (d::int)"
  shows "bi * d + bj + 1 \<le> d * d"
proof -
  have "bi * d \<le> (d - 1) * d" using assms by (intro mult_right_mono) simp_all
  then have "bi * d + bj + 1 \<le> (d - 1) * d + (d - 1) + 1" using assms by linarith
  also have "\<dots> = d * d" by (simp add: algebra_simps)
  finally show ?thesis .
qed

lemma cweight_next_send:
  assumes "0 \<le> bi" "bi < d" "0 \<le> bj" "bj < d"
  shows "cweight d (next_send a b c d cid bi bj) = cweight d (M_Send a b c d cid bi bj) - 4"
proof -
  have "cweight d (next_send a b c d cid bi bj) = 4 * (d * d - nsent d (next_send a b c d cid bi bj)) + 1"
    by (simp add: cweight_def next_send_def)
  then show ?thesis unfolding nsent_next_send[OF assms] by (simp add: cweight_def nsent_def)
qed

lemma cweight_nonneg:
  assumes "call_ok a b c d cid cs" "0 < d"
  shows "0 \<le> cweight d cs"
proof (cases cs)
  case (M_Send a' b' c' d' cid' bi bj)
  with assms have "0 \<le> bi" "bi < d" "0 \<le> bj" "bj < d" by (simp_all add: call_ok_def)
  from nsent_bound[OF this] M_Send show ?thesis by (simp add: cweight_def nsent_def)
qed (simp_all add: cweight_def nsent_def)

lemma work_worker:
  fixes s :: "('a::{zero,plus,times}) system"
  assumes st: "inv_struct a b c d cid c0 m0 s" and step: "workerThread w k s = Next s'"
  shows "work_left d c0 s' + 1 \<le> work_left d c0 s \<and> length (threads s') = length (threads s)"
  using step
proof (cases rule: workerThread_cases)
  case block
  then show ?thesis unfolding work_left_def by (simp add: sum_list_update_weight)
next
  case exit
  with st show ?thesis unfolding inv_struct_def by simp
next
  case (take p q)
  then show ?thesis unfolding work_left_def by (simp add: sum_list_update_weight)
next
  case (compute p m)
  then show ?thesis unfolding work_left_def by (simp add: sum_list_update_weight)
next
  case (report p bf)
  note bf = jobCompleted_Inr(1)[OF report(3)]
  from st have c0: "c0 < length (calls s)" unfolding inv_struct_def by simp
  from report(4) show ?thesis
  proof (cases rule: signal_jobDone_cases)
    case nobody
    with report(1,2) show ?thesis unfolding work_left_def bf by (simp add: sum_list_update_weight)
  next
    case (again cid' t)
    with report(1,2) show ?thesis unfolding work_left_def bf by (simp add: sum_list_update_weight)
  next
    case (return cid' t)
    from return(1,2) have k: "k = c0" using blocked_index[OF st, of k cid' t] by simp
    from return(2) have cs: "calls s ! c0 = M_Blocked cid' t" unfolding k by simp
    from report(1,2) c0 cs show ?thesis unfolding work_left_def return(4) k bf
      by (simp add: sum_list_update_weight cweight_def)
  qed
qed

lemma work_caller:
  fixes s :: "('a::{zero,plus,times}) system"
  assumes st: "inv_struct a b c d cid c0 m0 s" and step: "multiply_step k j s = Next s'" and d: "0 < d"
  shows "work_left d c0 s' + 1 \<le> work_left d c0 s \<and> length (threads s') = length (threads s)"
  using step
proof (cases rule: multiply_step_cases)
  case (start a' b' c' d')
  then have k: "k = c0" using caller_index[OF st] by simp
  from start(1,2) show ?thesis unfolding work_left_def start(5) k by (simp add: cweight_def)
next
  case (register a' b' c' d')
  then have k: "k = c0" using caller_index[OF st] by simp
  with st register(2) have eq: "d' = d" unfolding inv_struct_def by (simp add: call_ok_def)
  from register(1,2) d show ?thesis unfolding work_left_def register(4) k eq
    by (simp add: cweight_def nsent_def)
next
  case (send a' b' c' d' cid' bi bj)
  then have k: "k = c0" using caller_index[OF st] by simp
  with st send(2) have eq: "a' = a" "b' = b" "c' = c" "d' = d" "cid' = cid"
    and bnd: "0 \<le> bi" "bi < d" "0 \<le> bj" "bj < d"
    unfolding inv_struct_def by (simp_all add: call_ok_def)
  note cw = cweight_next_send[OF bnd, of a b c cid]
  from send(3) show ?thesis
  proof (cases rule: signal_jobAvailable_cases)
    case nobody
    with send(1,2) show ?thesis unfolding work_left_def k eq by (simp add: cw)
  next
    case again
    then show ?thesis by simp
  next
    case stop
    then show ?thesis by simp
  next
    case (take p q)
    from take(1) have kl: "j < length (threads s)" by simp
    from take(2) have kb: "threads s ! j = W_Blocked" by simp
    from kl have "threads s ! j \<in> set (threads s)" by simp
    with kb have "W_Blocked \<in> set (threads s)" by simp
    with st have q0: "jobQueue (buffer s) = []" unfolding inv_struct_def by simp
    with take(3) have pq: "q = []" by simp
    from send(1,2) kl kb q0 pq show ?thesis unfolding work_left_def take(4) k eq
      by (simp add: cw sum_list_update_weight)
  qed
next
  case (block cid')
  then have k: "k = c0" using caller_index[OF st] by simp
  from block(1,2) show ?thesis unfolding work_left_def block(4) k
    by (simp add: cweight_def nsent_def)
next
  case (return cid')
  then have k: "k = c0" using caller_index[OF st] by simp
  from return(1,2) show ?thesis unfolding work_left_def return(4) k
    by (simp add: cweight_def nsent_def)
qed

lemma work_step:
  fixes s :: "('a::{zero,plus,times}) system"
  assumes "inv_struct a b c d cid c0 m0 s" "step e s = Next s'" "engine_event e" "0 < d"
  shows "work_left d c0 s' + 1 \<le> work_left d c0 s \<and> length (threads s') = length (threads s)"
proof (cases e)
  case (Worker w k)
  with assms(2) have "workerThread w k s = Next s'" by simp
  from work_worker[OF assms(1) this] show ?thesis .
next
  case (Caller k j)
  with assms(2) have "multiply_step k j s = Next s'" by simp
  from work_caller[OF assms(1) this assms(4)] show ?thesis .
qed (use assms(3) in \<open>simp_all add: engine_event_def\<close>)

lemma work_nonneg:
  assumes "inv_struct a b c d cid c0 m0 s" "0 < d"
  shows "0 \<le> work_left d c0 s"
proof -
  from assms have "0 \<le> cweight d (calls s ! c0)"
    unfolding inv_struct_def using cweight_nonneg[of a b c d cid "calls s ! c0"] by simp
  with sum_weights_nonneg[of "threads s"] show ?thesis unfolding work_left_def by simp
qed

section \<open>Some thread can always move\<close>

lemma progress:
  fixes s :: "('a::{zero,plus,times}) system"
  assumes st: "inv_struct a b c d cid c0 m0 s" and cnt: "inv_count d cid c0 f0 s"
    and nr: "calls s ! c0 \<noteq> M_Returned" and d: "0 < d" and ca: "c \<noteq> a" and cb: "c \<noteq> b"
    and ts: "threads s \<noteq> []"
    and ov: "cid \<noteq> INT_MAX" "f0 + d * d \<le> INT_MAX" "0 \<le> f0"
  shows "\<exists>e s'. engine_event e \<and> step e s = Next s'"
proof -
  from st have c0: "c0 < length (calls s)" unfolding inv_struct_def by simp
  have dd0: "0 \<le> d * d" by simp
  from ov(2,3) dd0 have dd: "- INT_MAX - 1 \<le> d * d \<and> d * d \<le> INT_MAX"
    unfolding INT_MAX_def by linarith
  have caller: "\<exists>e s'. engine_event e \<and> step e s = Next s'" if "multiply_step c0 k s = Next s'" for k s'
  proof -
    have "engine_event (Caller c0 k)" by (simp add: engine_event_def)
    moreover have "step (Caller c0 k) s = Next s'" using that by simp
    ultimately show ?thesis by blast
  qed
  have worker: "\<exists>e s'. engine_event e \<and> step e s = Next s'" if "workerThread w k s = Next s'" for w k s'
  proof -
    have "engine_event (Worker w k)" by (simp add: engine_event_def)
    moreover have "step (Worker w k) s = Next s'" using that by simp
    ultimately show ?thesis by blast
  qed
  show ?thesis
  proof (cases "calls s ! c0")
    case (M_Start a' b' c' d')
    with st have eq: "d' = d" unfolding inv_struct_def by (simp add: call_ok_def)
    from d have "d \<noteq> 0" by simp
    from ms_start[OF c0 M_Start[unfolded eq] this dd] show ?thesis by (rule caller)
  next
    case (M_Register a' b' c' d')
    with cnt have "nextComputationId (buffer s) = cid" unfolding inv_count_def by auto
    with ov(1) have "nextComputationId (buffer s) \<noteq> INT_MAX" by simp
    from ms_register[OF c0 M_Register this] show ?thesis by (rule caller)
  next
    case (M_Send a' b' c' d' cid' bi bj)
    let ?s1 = "s\<lparr>buffer := (buffer s)\<lparr>jobQueue := jobQueue (buffer s) @ [job a' b' c' d' cid' bi bj]\<rparr>,
           calls := (calls s)[c0 := next_send a' b' c' d' cid' bi bj]\<rparr>"
    have "\<exists>k s'. signal_jobAvailable k ?s1 = Some s'"
    proof (cases "W_Blocked \<in> set (threads s)")
      case False
      then have "W_Blocked \<notin> set (threads ?s1)" by simp
      from sa_nobody[OF this] show ?thesis by blast
    next
      case True
      then obtain k where k: "k < length (threads s)" "threads s ! k = W_Blocked"
        by (auto simp: in_set_conv_nth)
      obtain p q where pq: "jobQueue (buffer s) @ [job a' b' c' d' cid' bi bj] = p # q"
        by (cases "jobQueue (buffer s) @ [job a' b' c' d' cid' bi bj]") simp_all
      have "k < length (threads ?s1)" "threads ?s1 ! k = W_Blocked" "jobQueue (buffer ?s1) = p # q"
        using k pq by simp_all
      from sa_take[OF this] show ?thesis by blast
    qed
    then obtain k s' where "signal_jobAvailable k ?s1 = Some s'" by blast
    then have "multiply_step c0 k s = Next s'" unfolding ms_send[OF c0 M_Send] by (simp add: of_option_def)
    then show ?thesis by (rule caller)
  next
    case (M_Wait cid')
    show ?thesis
    proof (cases "subscript (jobsFinishedPerComputation (buffer s)) cid' < subscript (totalJobsPerComputation (buffer s)) cid'")
      case True
      from ms_block[OF c0 M_Wait True] show ?thesis by (rule caller)
    next
      case False
      from ms_return[OF c0 M_Wait False] show ?thesis by (rule caller)
    qed
  next
    case (M_Blocked cid' t)
    with st have eq: "cid' = cid" "t = d * d" unfolding inv_struct_def by (simp_all add: call_ok_def)
    from cnt M_Blocked have lt: "nbJobFinished (buffer s) - f0 < d * d"
      and fin: "jobsFinishedPerComputation (buffer s) cid = Some (nbJobFinished (buffer s) - f0)"
      and sum: "int (length (jobQueue (buffer s))) + int (length (filter holds (threads s))) +
        (nbJobFinished (buffer s) - f0) = d * d"
      unfolding inv_count_def eq by (simp_all add: registered_def nsent_def)
    show ?thesis
    proof (cases "filter holds (threads s) = []")
      case False
      then obtain t' where "t' \<in> set (threads s)" "holds t'" by (auto simp: filter_empty_conv)
      then obtain w where w: "w < length (threads s)" "holds (threads s ! w)"
        by (auto simp: in_set_conv_nth)
      show ?thesis
      proof (cases "threads s ! w")
        case (W_Compute p)
        from held_worker_legit[OF st w(1), of p] W_Compute have "legit a b c d cid p" by simp
        then obtain bi bj where p: "p = job a b c d cid bi bj" by (rule legitE)
        from computeBlock_effect[OF d ca cb, of "mem s" cid bi bj]
        obtain m where "computeBlock (mem s) p = Inr m" unfolding p by blast
        from wt_compute[OF w(1) W_Compute this] show ?thesis by (rule worker)
      next
        case (W_Report p)
        from held_worker_legit[OF st w(1), of p] W_Report have "legit a b c d cid p" by simp
        then have pid: "computationId p = cid" by (auto elim: legitE)
        have n1: "nbJobFinished (buffer s) \<noteq> INT_MAX" using lt ov(2) by linarith
        have n2: "subscript (jobsFinishedPerComputation (buffer s)) cid \<noteq> INT_MAX"
          using fin lt ov(2,3) by simp
        obtain bf where bf: "jobCompleted (buffer s) (computationId p) = Inr bf"
          unfolding pid using n1 n2 by (simp add: jobCompleted_def)
        let ?s1 = "s\<lparr>buffer := bf, threads := (threads s)[w := W_GetJob]\<rparr>"
        have k: "c0 < length (calls ?s1)" "calls ?s1 ! c0 = M_Blocked cid' t" using c0 M_Blocked by simp_all
        have "\<exists>s'. signal_jobDone c0 ?s1 = Some s'"
        proof (cases "subscript (jobsFinishedPerComputation (buffer ?s1)) cid' < t")
          case True
          from sd_again[OF k True] show ?thesis by blast
        next
          case False
          from sd_return[OF k False] show ?thesis by blast
        qed
        then obtain s' where "signal_jobDone c0 ?s1 = Some s'" by blast
        then have "workerThread w c0 s = Next s'" unfolding wt_report[OF w(1) W_Report bf]
          by (simp add: of_option_def)
        then show ?thesis by (rule worker)
      qed (use w(2) in simp_all)
    next
      case True
      with sum lt have "jobQueue (buffer s) \<noteq> []" by auto
      then obtain p q where pq: "jobQueue (buffer s) = p # q" by (cases "jobQueue (buffer s)") simp_all
      from ts have w: "0 < length (threads s)" by simp
      then have in0: "threads s ! 0 \<in> set (threads s)" by simp
      from st pq have nb: "W_Blocked \<notin> set (threads s)" and ne: "W_Exited \<notin> set (threads s)"
        unfolding inv_struct_def by auto
      from True in0 have nh: "\<not> holds (threads s ! 0)" by (auto simp: filter_empty_conv)
      have g: "threads s ! 0 = W_GetJob"
      proof (cases "threads s ! 0")
        case W_Blocked
        with in0 nb show ?thesis by simp
      next
        case W_Exited
        with in0 ne show ?thesis by simp
      next
        case (W_Compute p)
        with nh show ?thesis by simp
      next
        case (W_Report p)
        with nh show ?thesis by simp
      qed
      from wt_take[OF w g pq] show ?thesis by (rule worker)
    qed
  next
    case M_Returned
    with nr show ?thesis by simp
  qed
qed

section \<open>No step of the call is undefined\<close>

lemma defined_step:
  fixes s :: "('a::{zero,plus,times}) system"
  assumes st: "inv_struct a b c d cid c0 m0 s" and cnt: "inv_count d cid c0 f0 s"
    and d: "0 < d" and ca: "c \<noteq> a" and cb: "c \<noteq> b"
    and ov: "cid \<noteq> INT_MAX" "f0 + d * d \<le> INT_MAX" "0 \<le> f0"
    and ev: "engine_event e"
  shows "step e s \<noteq> Undefined x"
proof (cases e)
  case (Worker w k)
  show ?thesis
  proof (cases "w < length (threads s)")
    case False
    then show ?thesis unfolding Worker by (simp add: wt_range)
  next
    case w: True
    show ?thesis
    proof (cases "threads s ! w")
      case W_GetJob
      show ?thesis
      proof (cases "jobQueue (buffer s)")
        case Nil
        with st have "\<not> isTerminating (buffer s)" unfolding inv_struct_def by simp
        from wt_block[OF w W_GetJob Nil this] show ?thesis unfolding Worker by simp
      next
        case (Cons p q)
        from wt_take[OF w W_GetJob Cons] show ?thesis unfolding Worker by simp
      qed
    next
      case W_Blocked
      from wt_blocked[OF w this] show ?thesis unfolding Worker by simp
    next
      case (W_Compute p)
      from held_worker_legit[OF st w, of p] W_Compute have "legit a b c d cid p" by simp
      then obtain bi bj where p: "p = job a b c d cid bi bj" by (rule legitE)
      from computeBlock_effect[OF d ca cb, of "mem s" cid bi bj]
      obtain m where "computeBlock (mem s) p = Inr m" unfolding p by blast
      from wt_compute[OF w W_Compute this] show ?thesis unfolding Worker by simp
    next
      case (W_Report p)
      from held_worker_legit[OF st w, of p] W_Report have "legit a b c d cid p" by simp
      then have pid: "computationId p = cid" by (auto elim: legitE)
      have hw: "holds (threads s ! w)" using W_Report by simp
      have reg: "registered (calls s ! c0)" using holder_registered[OF cnt w hw] .
      from cnt reg have fin: "jobsFinishedPerComputation (buffer s) cid = Some (nbJobFinished (buffer s) - f0)"
        and sum: "int (length (jobQueue (buffer s))) + int (length (filter holds (threads s))) +
          (nbJobFinished (buffer s) - f0) = nsent d (calls s ! c0)"
        unfolding inv_count_def by simp_all
      from st have "call_ok a b c d cid (calls s ! c0)" unfolding inv_struct_def by simp
      then have "nsent d (calls s ! c0) \<le> d * d"
      proof (cases "calls s ! c0")
        case (M_Send a' b' c' d' cid' bi bj)
        assume "call_ok a b c d cid (calls s ! c0)"
        with M_Send have "0 \<le> bi" "bi < d" "0 \<le> bj" "bj < d" by (simp_all add: call_ok_def)
        from nsent_bound[OF this] M_Send show ?thesis by (simp add: nsent_def)
      qed (use d in \<open>simp_all add: nsent_def\<close>)
      with sum holder_counts[OF w hw] have lt: "nbJobFinished (buffer s) - f0 < d * d" by linarith
      have n1: "nbJobFinished (buffer s) \<noteq> INT_MAX" using lt ov(2) by linarith
      have n2: "subscript (jobsFinishedPerComputation (buffer s)) cid \<noteq> INT_MAX"
        using fin lt ov(2,3) by simp
      obtain bf where bf: "jobCompleted (buffer s) (computationId p) = Inr bf"
        unfolding pid using n1 n2 by (simp add: jobCompleted_def)
      show ?thesis unfolding Worker using wt_report[OF w W_Report bf, of k]
        by (simp add: of_option_def split: option.splits)
    next
      case W_Exited
      from wt_exited[OF w this] show ?thesis unfolding Worker by simp
    qed
  qed
next
  case (Caller k j)
  show ?thesis
  proof (cases "multiply_step k j s")
    case (Undefined y)
    have kl: "k < length (calls s)" using Undefined ms_range[of k s j] by (cases "k < length (calls s)") simp_all
    have dd0: "0 \<le> d * d" by simp
    from ov(2,3) dd0 have dd: "- INT_MAX - 1 \<le> d * d \<and> d * d \<le> INT_MAX"
      unfolding INT_MAX_def by linarith
    have False
    proof (cases "calls s ! k")
      case (M_Start a' b' c' d')
      then have k: "k = c0" using caller_index[OF st kl] by simp
      with st M_Start have eq: "d' = d" unfolding inv_struct_def by (simp add: call_ok_def)
      from d have "d \<noteq> 0" by simp
      from ms_start[OF kl M_Start[unfolded eq] this dd, of j] Undefined show False by simp
    next
      case (M_Register a' b' c' d')
      then have k: "k = c0" using caller_index[OF st kl] by simp
      with cnt M_Register have "nextComputationId (buffer s) = cid" unfolding inv_count_def by auto
      with ov(1) have "nextComputationId (buffer s) \<noteq> INT_MAX" by simp
      from ms_register[OF kl M_Register this, of j] Undefined show False by simp
    next
      case (M_Send a' b' c' d' cid' bi bj)
      from ms_send[OF kl this, of j] Undefined show False by (simp add: of_option_def split: option.splits)
    next
      case (M_Wait cid')
      show False
      proof (cases "subscript (jobsFinishedPerComputation (buffer s)) cid' < subscript (totalJobsPerComputation (buffer s)) cid'")
        case True
        from ms_block[OF kl M_Wait True, of j] Undefined show False by simp
      next
        case False
        from ms_return[OF kl M_Wait False, of j] Undefined show False by simp
      qed
    next
      case (M_Blocked cid' t)
      from ms_blocked[OF kl this, of j] Undefined show False by simp
    next
      case M_Returned
      from ms_returned[OF kl this, of j] Undefined show False by simp
    qed
    then show ?thesis ..
  qed (simp_all add: Caller)
qed (use ev in \<open>simp_all add: engine_event_def\<close>)

lemma run_bound:
  fixes s :: "('a::{zero,plus,times}) system"
  assumes "run es s = Next s'" "list_all engine_event es" "0 < d" "c \<noteq> a" "c \<noteq> b"
    "inv_struct a b c d cid c0 m0 s" "inv_count d cid c0 f0 s"
    "inv_cells a b c d cid c0 (int (msize (m0 a))) (m0 a) (m0 b) s"
  shows "int (length es) + work_left d c0 s' \<le> work_left d c0 s \<and> length (threads s') = length (threads s)"
  using assms(1,2,6,7,8)
proof (induction es arbitrary: s)
  case Nil
  then show ?case by simp
next
  case (Cons e es)
  from Cons.prems(1) obtain s1 where s1: "step e s = Next s1" "run es s1 = Next s'"
    by (cases "step e s") simp_all
  from Cons.prems(2) have ev: "engine_event e" "list_all engine_event es" by simp_all
  from inv_step[OF Cons.prems(3,4,5) s1(1) ev(1) assms(3,4,5)]
  have i1: "inv_struct a b c d cid c0 m0 s1" "inv_count d cid c0 f0 s1"
    "inv_cells a b c d cid c0 (int (msize (m0 a))) (m0 a) (m0 b) s1" by simp_all
  from Cons.IH[OF s1(2) ev(2) i1] work_step[OF Cons.prems(3) s1(1) ev(1) assms(3)]
  show ?case by simp
qed

lemma run_defined:
  fixes s :: "('a::{zero,plus,times}) system"
  assumes "list_all engine_event es" "0 < d" "c \<noteq> a" "c \<noteq> b"
    "cid \<noteq> INT_MAX" "f0 + d * d \<le> INT_MAX" "0 \<le> f0"
    "inv_struct a b c d cid c0 m0 s" "inv_count d cid c0 f0 s"
    "inv_cells a b c d cid c0 (int (msize (m0 a))) (m0 a) (m0 b) s"
  shows "run es s \<noteq> Undefined x"
  using assms(1,8,9,10)
proof (induction es arbitrary: s)
  case Nil
  then show ?case by simp
next
  case (Cons e es)
  from Cons.prems(1) have ev: "engine_event e" "list_all engine_event es" by simp_all
  show ?case
  proof (cases "step e s")
    case (Next s1)
    from inv_step[OF Cons.prems(2,3,4) Next ev(1) assms(2,3,4)]
    have i1: "inv_struct a b c d cid c0 m0 s1" "inv_count d cid c0 f0 s1"
      "inv_cells a b c d cid c0 (int (msize (m0 a))) (m0 a) (m0 b) s1" by simp_all
    from Cons.IH[OF ev(2) i1] Next show ?thesis by simp
  next
    case Disabled
    then show ?thesis by simp
  next
    case (Undefined y)
    with defined_step[OF Cons.prems(2,3) assms(2,3,4,5,6,7) ev(1), of y] show ?thesis by simp
  qed
qed

lemma quiescent_work:
  assumes "quiescent s0"
  shows "work_left d (length (calls s0)) (multiply a b c d s0) \<le> 4 * (d * d) + 3 + int (length (threads s0))"
proof -
  from assms have t: "\<forall>t \<in> set (threads s0). t = W_GetJob \<or> t = W_Blocked"
    and q: "jobQueue (buffer s0) = []"
    unfolding quiescent_def by (simp_all add: list_all_iff)
  have "sum_list (map wweight ts) \<le> int (length ts)" if "\<forall>t \<in> set ts. t = W_GetJob \<or> t = W_Blocked" for ts
    using that by (induction ts) auto
  from this[OF t] q show ?thesis unfolding work_left_def multiply_def by (simp add: cweight_def)
qed

section \<open>One call from a quiescent engine\<close>


lemma call_analysis:
  fixes s0 :: "('a::{zero,plus,times}) system"
  assumes q: "quiescent s0" and d: "0 < d" and ca: "c \<noteq> a" and cb: "c \<noteq> b"
    and ov: "nextComputationId (buffer s0) \<noteq> INT_MAX" "0 \<le> nbJobFinished (buffer s0)"
      "nbJobFinished (buffer s0) + d * d \<le> INT_MAX"
    and es: "list_all engine_event es"
  shows "run es (multiply a b c d s0) \<noteq> Undefined x"
    and "run es (multiply a b c d s0) = Next s \<Longrightarrow>
      int (length es) \<le> 4 * (d * d) + 3 + int (length (threads s0))"
    and "run es (multiply a b c d s0) = Next s \<Longrightarrow> threads s0 \<noteq> [] \<Longrightarrow>
      calls s ! length (calls s0) \<noteq> M_Returned \<Longrightarrow> \<exists>e s'. engine_event e \<and> step e s = Next s'"
    and "run es (multiply a b c d s0) = Next s \<Longrightarrow> calls s ! length (calls s0) = M_Returned \<Longrightarrow>
      0 \<le> i \<Longrightarrow> i < int (msize (mem s0 a)) \<Longrightarrow> 0 \<le> j \<Longrightarrow> j < int (msize (mem s0 a)) \<Longrightarrow>
      element (mem s c) j i =
        (if j < d * (int (msize (mem s0 a)) div d) \<and> i < d * (int (msize (mem s0 a)) div d)
         then kernel_value (mem s0 a) (mem s0 b) (d * (int (msize (mem s0 a)) div d)) j i else 0)"
proof -
  let ?s1 = "multiply a b c d s0" and ?cid = "nextComputationId (buffer s0)" and ?c0 = "length (calls s0)"
  let ?f0 = "nbJobFinished (buffer s0)"
  note i0' = inv_init(1)[OF q, where a = a and b = b and c = c and d = d]
    inv_init(2)[OF q, where a = a and b = b and c = c and d = d]
    inv_init(3)[OF q, where a = a and b = b and c = c and d = d and n = "int (msize (mem s0 a))"
      and MA = "mem s0 a" and MB = "mem s0 b"]
  have ov2: "?f0 + d * d \<le> INT_MAX" using ov(3) .
  show "run es ?s1 \<noteq> Undefined x"
    by (rule run_defined[OF es d ca cb ov(1) ov2 ov(2) i0'])
  {
    assume r: "run es ?s1 = Next s"
    note inv = inv_run[OF r es d ca cb i0']
    from inv have st: "inv_struct a b c d ?cid ?c0 (mem s0) s" and cnt: "inv_count d ?cid ?c0 ?f0 s"
      and cl: "inv_cells a b c d ?cid ?c0 (int (msize (mem s0 a))) (mem s0 a) (mem s0 b) s" by simp_all
    from run_bound[OF r es d ca cb i0'] have b: "int (length es) + work_left d ?c0 s \<le> work_left d ?c0 ?s1"
      and len: "length (threads s) = length (threads ?s1)" by simp_all
    from b work_nonneg[OF st d] quiescent_work[OF q, of d a b c]
    show "int (length es) \<le> 4 * (d * d) + 3 + int (length (threads s0))" by linarith
    {
      assume "threads s0 \<noteq> []" and nr: "calls s ! ?c0 \<noteq> M_Returned"
      with len have ts: "threads s \<noteq> []" by (auto simp: multiply_def)
      show "\<exists>e s'. engine_event e \<and> step e s = Next s'"
        by (rule progress[OF st cnt nr d ca cb ts ov(1) ov2 ov(2)])
    }
    {
      assume ret: "calls s ! ?c0 = M_Returned" and ij: "0 \<le> i" "i < int (msize (mem s0 a))" "0 \<le> j" "j < int (msize (mem s0 a))"
      show "element (mem s c) j i =
        (if j < d * (int (msize (mem s0 a)) div d) \<and> i < d * (int (msize (mem s0 a)) div d)
         then kernel_value (mem s0 a) (mem s0 b) (d * (int (msize (mem s0 a)) div d)) j i else 0)"
        by (rule returned_cells[OF st cnt cl ret d _ ij(3,4) ij(1,2)]) simp
    }
  }
qed

section \<open>The call returns, and leaves the engine quiescent\<close>

text \<open>
  From every state of the call some schedule leads to its return: a thread can move as
  long as the call has not returned, and every move reduces the work left.
\<close>

lemma reach_returned:
  fixes s :: "('a::{zero,plus,times}) system"
  assumes d: "0 < d" and ca: "c \<noteq> a" and cb: "c \<noteq> b"
    and ov: "cid \<noteq> INT_MAX" "f0 + d * d \<le> INT_MAX" "0 \<le> f0"
  shows "inv_struct a b c d cid c0 m0 s \<Longrightarrow> inv_count d cid c0 f0 s \<Longrightarrow>
    inv_cells a b c d cid c0 (int (msize (m0 a))) (m0 a) (m0 b) s \<Longrightarrow> threads s \<noteq> [] \<Longrightarrow>
    \<exists>es s'. list_all engine_event es \<and> run es s = Next s' \<and> calls s' ! c0 = M_Returned"
proof (induction "nat (work_left d c0 s)" arbitrary: s rule: less_induct)
  case less
  show ?case
  proof (cases "calls s ! c0 = M_Returned")
    case True
    then have "list_all engine_event [] \<and> run [] s = Next s \<and> calls s ! c0 = M_Returned" by simp
    then show ?thesis by blast
  next
    case False
    from progress[OF less.prems(1,2) False d ca cb less.prems(4) ov]
    obtain e s1 where e: "engine_event e" "step e s = Next s1" by blast
    from inv_step[OF less.prems(1,2,3) e(2,1) d ca cb]
    have i1: "inv_struct a b c d cid c0 m0 s1" "inv_count d cid c0 f0 s1"
      "inv_cells a b c d cid c0 (int (msize (m0 a))) (m0 a) (m0 b) s1" by simp_all
    from work_step[OF less.prems(1) e(2,1) d]
    have w: "work_left d c0 s1 + 1 \<le> work_left d c0 s" "length (threads s1) = length (threads s)"
      by simp_all
    from work_nonneg[OF i1(1) d] have "0 \<le> work_left d c0 s1" .
    with w(1) have m: "nat (work_left d c0 s1) < nat (work_left d c0 s)" by linarith
    from w(2) less.prems(4) have t1: "threads s1 \<noteq> []" by auto
    from less.hyps[OF m i1 t1] obtain es s' where
      r: "list_all engine_event es" "run es s1 = Next s'" "calls s' ! c0 = M_Returned" by blast
    from e r have "list_all engine_event (e # es) \<and> run (e # es) s = Next s' \<and> calls s' ! c0 = M_Returned"
      by simp
    then show ?thesis by blast
  qed
qed


lemma call_returns:
  fixes s0 :: "('a::{zero,plus,times}) system"
  assumes q: "quiescent s0" and ts: "threads s0 \<noteq> []" and d: "0 < d" and ca: "c \<noteq> a" and cb: "c \<noteq> b"
    and ov: "nextComputationId (buffer s0) \<noteq> INT_MAX" "0 \<le> nbJobFinished (buffer s0)"
      "nbJobFinished (buffer s0) + d * d \<le> INT_MAX"
  shows "\<exists>es s. list_all engine_event es \<and> run es (multiply a b c d s0) = Next s \<and>
    calls s ! length (calls s0) = M_Returned"
proof -
  note i0 = inv_init(1)[OF q, where a = a and b = b and c = c and d = d]
    inv_init(2)[OF q, where a = a and b = b and c = c and d = d]
    inv_init(3)[OF q, where a = a and b = b and c = c and d = d and n = "int (msize (mem s0 a))"
      and MA = "mem s0 a" and MB = "mem s0 b"]
  from ts have tn: "threads (multiply a b c d s0) \<noteq> []" by (simp add: multiply_def)
  show ?thesis by (rule reach_returned[OF d ca cb ov(1,3,2) i0 tn])
qed

section \<open>The counter of the identifiers\<close>

text \<open>
  Only \<^verbatim>\<open>startNewComputation\<close> assigns to \<^verbatim>\<open>nextComputationId\<close>: every step leaves it as
  it is or, when it hands out its value, adds one to it.
\<close>

lemma signal_jobAvailable_next:
  "signal_jobAvailable w s = Some s' \<Longrightarrow>
   nextComputationId (buffer s') = nextComputationId (buffer s)"
  unfolding signal_jobAvailable_def getJob_def
  by (auto split: if_splits monitor_exit.splits option.splits)

lemma signal_jobDone_next:
  "signal_jobDone c s = Some s' \<Longrightarrow>
   nextComputationId (buffer s') = nextComputationId (buffer s)"
  unfolding signal_jobDone_def waitAllJobsDone_loop_def
  by (auto simp: Let_def split: if_splits monitor_exit.splits cstate.splits)

lemma workerThread_next:
  "workerThread w k s = Next s' \<Longrightarrow> nextComputationId (buffer s') = nextComputationId (buffer s)"
  unfolding workerThread_def getJob_def jobCompleted_def
  by (auto simp: of_option_Next_iff dest!: signal_jobDone_next
      split: if_splits wstate.splits monitor_exit.splits option.splits sum.splits)

lemma multiply_step_next:
  "multiply_step c k s = Next s' \<Longrightarrow>
   nextComputationId (buffer s') = nextComputationId (buffer s) + int (length (issued_by (Caller c k) s)) \<and>
   issued_by (Caller c k) s = (if \<exists>a b cc d. calls s ! c = M_Register a b cc d then [nextComputationId (buffer s)] else []) \<and>
   (\<forall>cid. issued_by (Caller c k) s = [cid] \<longrightarrow>
      (\<exists>a b cc d. calls s' ! c = M_Send a b cc d cid 0 0) \<or> calls s' ! c = M_Wait cid)"
  unfolding multiply_step_def issued_by_def startNewComputation_def waitAllJobsDone_def
    waitAllJobsDone_enter_def waitAllJobsDone_loop_def sendJob_def
  by (auto simp: of_option_Next_iff Let_def dest!: signal_jobAvailable_next
      split: if_splits cstate.splits monitor_exit.splits option.splits sum.splits prod.splits)

lemma destructor_step_next:
  "destructor_step k s = Next s' \<Longrightarrow> nextComputationId (buffer s') = nextComputationId (buffer s)"
  unfolding destructor_step_def terminate_flag_def
  by (auto simp: of_option_Next_iff dest!: signal_jobAvailable_next
      split: if_splits dstate.splits)

lemma step_next:
  "step e s = Next s' \<Longrightarrow>
   nextComputationId (buffer s') = nextComputationId (buffer s) + int (length (issued_by e s)) \<and>
   (issued_by e s = [] \<or> issued_by e s = [nextComputationId (buffer s)])"
proof (cases e)
  case (Worker w k)
  assume "step e s = Next s'"
  with Worker show ?thesis using workerThread_next[of w k s s'] by (simp add: issued_by_def)
next
  case (Caller c k)
  assume "step e s = Next s'"
  with Caller show ?thesis using multiply_step_next[of c k s s'] by auto
next
  case (Destructor k)
  assume "step e s = Next s'"
  with Destructor show ?thesis using destructor_step_next[of k s s'] by (simp add: issued_by_def)
next
  case (Call a b c d)
  assume "step e s = Next s'"
  with Call show ?thesis by (auto simp: issued_by_def multiply_def)
next
  case (Call3 a b c)
  assume "step e s = Next s'"
  with Call3 show ?thesis by (auto simp: issued_by_def multiply_def multiply3_def)
qed

lemma issued_range:
  "run es s = Next s' \<Longrightarrow>
   nextComputationId (buffer s') = nextComputationId (buffer s) + int (length (issued es s)) \<and>
   issued es s = map (\<lambda>i. nextComputationId (buffer s) + int i) [0..<length (issued es s)]"
proof (induction es arbitrary: s)
  case Nil
  then show ?case by simp
next
  case (Cons e es)
  from Cons.prems obtain s1 where s1: "step e s = Next s1" "run es s1 = Next s'"
    by (cases "step e s") simp_all
  from step_next[OF s1(1)] have n1: "nextComputationId (buffer s1) = nextComputationId (buffer s) + int (length (issued_by e s))"
    and ib: "issued_by e s = [] \<or> issued_by e s = [nextComputationId (buffer s)]" by simp_all
  from Cons.IH[OF s1(2)] have n2: "nextComputationId (buffer s') = nextComputationId (buffer s1) + int (length (issued es s1))"
    and m: "issued es s1 = map (\<lambda>i. nextComputationId (buffer s1) + int i) [0..<length (issued es s1)]" by simp_all
  have iss: "issued (e # es) s = issued_by e s @ issued es s1" using s1(1) by simp
  from ib show ?case
  proof
    assume e: "issued_by e s = []"
    with n1 n2 m iss show ?thesis by simp
  next
    assume e: "issued_by e s = [nextComputationId (buffer s)]"
    let ?n = "nextComputationId (buffer s)" and ?l = "length (issued es s1)"
    from e n1 have n1': "nextComputationId (buffer s1) = ?n + 1" by simp
    have "map (\<lambda>i. ?n + int i) [0..<Suc ?l] = ?n # map (\<lambda>i. ?n + 1 + int i) [0..<?l]"
    proof -
      have "[0..<Suc ?l] = 0 # map Suc [0..<?l]" by (simp only: map_Suc_upt upt_conv_Cons[of 0 "Suc ?l"])
      then show ?thesis by (simp add: comp_def del: upt_Suc)
    qed
    with m n1' e iss have "issued (e # es) s = map (\<lambda>i. ?n + int i) [0..<Suc ?l]" by simp
    moreover have "length (issued (e # es) s) = Suc ?l" using iss e by simp
    ultimately show ?thesis using n1' n2 by simp
  qed
qed

section \<open>Jobs are not lost\<close>

lemma pending_signal_jobAvailable:
  assumes "signal_jobAvailable k s = Some s'"
  shows "pending p s' = pending p s"
  using assms
proof (cases rule: signal_jobAvailable_cases)
  case nobody
  then show ?thesis by simp
next
  case again
  then show ?thesis by simp
next
  case stop
  then show ?thesis unfolding pending_def by (simp add: filter_length_update)
next
  case (take p0 q)
  then show ?thesis unfolding pending_def by (simp add: filter_length_update)
qed

lemma pending_signal_jobDone:
  assumes "signal_jobDone k s = Some s'"
  shows "pending p s' = pending p s"
  using assms
proof (cases rule: signal_jobDone_cases)
  case nobody
  then show ?thesis by simp
next
  case (again cid t)
  then show ?thesis unfolding pending_def by simp
next
  case (return cid t)
  then show ?thesis unfolding pending_def by simp
qed

lemma jobCompleted_queue: "jobCompleted b cid = Inr bf \<Longrightarrow> jobQueue bf = jobQueue b"
  unfolding jobCompleted_def by (auto split: if_splits)

lemma pending_worker:
  assumes "workerThread w k s = Next s'"
  shows "pending p s' = pending p s - (if completes (Worker w k) s p then 1 else 0)"
  using assms
proof (cases rule: workerThread_cases)
  case block
  then show ?thesis unfolding pending_def completes_def by (simp add: filter_length_update)
next
  case exit
  then show ?thesis unfolding pending_def completes_def by (simp add: filter_length_update)
next
  case (take p0 q)
  then show ?thesis unfolding pending_def completes_def by (simp add: filter_length_update)
next
  case (compute p0 m)
  then show ?thesis unfolding pending_def completes_def by (simp add: filter_length_update)
next
  case (report p0 bf)
  from pending_signal_jobDone[OF report(4)]
  have "pending p s' = pending p (s\<lparr>buffer := bf, threads := (threads s)[w := W_GetJob]\<rparr>)" .
  also have "\<dots> = pending p s - (if p0 = p then 1 else 0)"
    using report(1,2) jobCompleted_queue[OF report(3)] unfolding pending_def
    by (simp add: filter_length_update)
  finally show ?thesis using report(1,2) unfolding completes_def by auto
qed

lemma pending_caller:
  assumes "multiply_step c k s = Next s'"
  shows "pending p s' = pending p s + (if enqueues (Caller c k) s p then 1 else 0)"
  using assms
proof (cases rule: multiply_step_cases)
  case (start a b cc d)
  then show ?thesis unfolding pending_def enqueues_def by simp
next
  case (register a b cc d)
  then show ?thesis unfolding pending_def enqueues_def by simp
next
  case (send a b cc d cid bi bj)
  from pending_signal_jobAvailable[OF send(3)]
  have "pending p s' = pending p (s\<lparr>buffer := (buffer s)\<lparr>jobQueue := jobQueue (buffer s) @ [job a b cc d cid bi bj]\<rparr>,
           calls := (calls s)[c := next_send a b cc d cid bi bj]\<rparr>)" .
  also have "\<dots> = pending p s + (if job a b cc d cid bi bj = p then 1 else 0)"
    unfolding pending_def by simp
  finally show ?thesis using send(1,2) unfolding enqueues_def job_def by auto
next
  case (block cid)
  then show ?thesis unfolding pending_def enqueues_def by simp
next
  case (return cid)
  then show ?thesis unfolding pending_def enqueues_def by simp
qed

lemma pending_destructor:
  assumes "destructor_step k s = Next s'"
  shows "pending p s' = pending p s"
proof (cases "destructor s")
  case D_Terminate
  with assms show ?thesis unfolding destructor_step_def pending_def terminate_flag_def by auto
next
  case (D_Signal i)
  with assms have "signal_jobAvailable k
      (s\<lparr>destructor := (if i + 1 < terminate_signals then D_Signal (i + 1) else D_Join)\<rparr>) = Some s'"
    unfolding destructor_step_def by (simp add: of_option_Next_iff)
  from pending_signal_jobAvailable[OF this] show ?thesis unfolding pending_def by simp
next
  case D_Join
  with assms show ?thesis unfolding destructor_step_def pending_def by (auto split: if_splits)
next
  case D_Done
  with assms show ?thesis unfolding destructor_step_def by simp
qed

lemma pending_step:
  assumes "step e s = Next s'"
  shows "pending p s' = pending p s + (if enqueues e s p then 1 else 0) - (if completes e s p then 1 else 0)"
proof (cases e)
  case (Worker w k)
  with assms pending_worker[of w k s s' p] show ?thesis by (simp add: enqueues_def)
next
  case (Caller c k)
  with assms pending_caller[of c k s s' p] show ?thesis by (simp add: completes_def)
next
  case (Destructor k)
  with assms pending_destructor[of k s s' p] show ?thesis by (simp add: completes_def enqueues_def)
next
  case (Call a b c d)
  with assms show ?thesis by (auto simp: completes_def enqueues_def pending_def multiply_def)
next
  case (Call3 a b c)
  with assms show ?thesis by (auto simp: completes_def enqueues_def pending_def multiply_def multiply3_def)
qed

lemma threads_signal_jobAvailable:
  assumes "signal_jobAvailable k s = Some s'" "w < length (threads s)" "threads s' ! w \<noteq> threads s ! w"
  shows "threads s ! w = W_Blocked \<and>
    (threads s' ! w = W_Exited \<and> isTerminating (buffer s') \<and> jobQueue (buffer s) = [] \<and> jobQueue (buffer s') = [] \<or>
     (\<exists>p q. threads s' ! w = W_Compute p \<and> jobQueue (buffer s) = p # q \<and> jobQueue (buffer s') = q))"
  using assms(1)
proof (cases rule: signal_jobAvailable_cases)
  case nobody
  with assms(3) show ?thesis by simp
next
  case again
  with assms(3) show ?thesis by simp
next
  case stop
  with assms(2,3) show ?thesis by (cases "w = k") simp_all
next
  case (take p q)
  with assms(2,3) show ?thesis by (cases "w = k") simp_all
qed

lemma threads_signal_jobDone:
  assumes "signal_jobDone k s = Some s'"
  shows "threads s' = threads s"
  using assms by (cases rule: signal_jobDone_cases) simp_all

lemma exit_step:
  assumes "step e s = Next s'" "w < length (threads s)" "threads s' ! w = W_Exited" "threads s ! w \<noteq> W_Exited"
  shows "(threads s ! w = W_GetJob \<or> threads s ! w = W_Blocked) \<and>
    isTerminating (buffer s') \<and> jobQueue (buffer s') = []"
proof (cases e)
  case (Worker v k)
  with assms(1) have "workerThread v k s = Next s'" by simp
  then show ?thesis
  proof (cases rule: workerThread_cases)
    case block
    with assms(2,3,4) show ?thesis by (cases "w = v") simp_all
  next
    case exit
    with assms(2,3,4) show ?thesis by (cases "w = v") simp_all
  next
    case (take p q)
    with assms(2,3,4) show ?thesis by (cases "w = v") simp_all
  next
    case (compute p m)
    with assms(2,3,4) show ?thesis by (cases "w = v") simp_all
  next
    case (report p bf)
    from threads_signal_jobDone[OF report(4)] have "threads s' = (threads s)[v := W_GetJob]" by simp
    with assms(2,3,4) show ?thesis by (cases "w = v") simp_all
  qed
next
  case (Caller c k)
  with assms(1) have "multiply_step c k s = Next s'" by simp
  then show ?thesis
  proof (cases rule: multiply_step_cases)
    case (start a b cc d)
    with assms(3,4) show ?thesis by simp
  next
    case (register a b cc d)
    with assms(3,4) show ?thesis by simp
  next
    case (send a b cc d cid bi bj)
    let ?t = "s\<lparr>buffer := (buffer s)\<lparr>jobQueue := jobQueue (buffer s) @ [job a b cc d cid bi bj]\<rparr>,
           calls := (calls s)[c := next_send a b cc d cid bi bj]\<rparr>"
    from assms(2,3,4) have "w < length (threads ?t)" "threads s' ! w \<noteq> threads ?t ! w" by simp_all
    from threads_signal_jobAvailable[OF send(3) this] assms(3) show ?thesis by auto
  next
    case (block cid)
    with assms(3,4) show ?thesis by simp
  next
    case (return cid)
    with assms(3,4) show ?thesis by simp
  qed
next
  case (Destructor k)
  with assms(1) have ds: "destructor_step k s = Next s'" by simp
  show ?thesis
  proof (cases "destructor s")
    case D_Terminate
    with ds assms(3,4) show ?thesis unfolding destructor_step_def by auto
  next
    case (D_Signal i)
    let ?t = "s\<lparr>destructor := (if i + 1 < terminate_signals then D_Signal (i + 1) else D_Join)\<rparr>"
    from D_Signal ds have sg: "signal_jobAvailable k ?t = Some s'"
      unfolding destructor_step_def by (simp add: of_option_Next_iff)
    from assms(2,3,4) have "w < length (threads ?t)" "threads s' ! w \<noteq> threads ?t ! w" by simp_all
    from threads_signal_jobAvailable[OF sg this] assms(3) show ?thesis by auto
  next
    case D_Join
    with ds assms(3,4) show ?thesis unfolding destructor_step_def by (auto split: if_splits)
  next
    case D_Done
    with ds show ?thesis unfolding destructor_step_def by simp
  qed
next
  case (Call a b c d)
  with assms show ?thesis by (auto simp: multiply_def)
next
  case (Call3 a b c)
  with assms show ?thesis by (auto simp: multiply_def multiply3_def)
qed

lemma no_sleeper_signal_jobAvailable:
  assumes "signal_jobAvailable k (s\<lparr>buffer := (buffer s)\<lparr>jobQueue := jobQueue (buffer s) @ js\<rparr>\<rparr>) = Some s'"
    "no_sleeper s" "length js \<le> 1"
  shows "no_sleeper s'"
  using assms(1)
proof (cases rule: signal_jobAvailable_cases)
  case nobody
  then show ?thesis unfolding no_sleeper_def by simp
next
  case again
  then show ?thesis unfolding no_sleeper_def by simp
next
  case stop
  then show ?thesis unfolding no_sleeper_def by simp
next
  case (take p q)
  from take(1,2) have "W_Blocked \<in> set (threads s)" by (auto simp: in_set_conv_nth)
  with assms(2) have "jobQueue (buffer s) = []" unfolding no_sleeper_def by simp
  with take(3) assms(3) have "q = []" by (cases js) simp_all
  with take(4) show ?thesis unfolding no_sleeper_def by simp
qed

lemma no_sleeper_step:
  assumes "step e s = Next s'" "no_sleeper s"
  shows "no_sleeper s'"
proof (cases e)
  case (Worker v k)
  with assms(1) have "workerThread v k s = Next s'" by simp
  then show ?thesis
  proof (cases rule: workerThread_cases)
    case block
    then show ?thesis unfolding no_sleeper_def by simp
  next
    case exit
    then show ?thesis unfolding no_sleeper_def by simp
  next
    case (take p q)
    with assms(2) have "W_Blocked \<notin> set (threads s)" unfolding no_sleeper_def by simp
    with take show ?thesis unfolding no_sleeper_def by (auto dest: set_update_cases)
  next
    case (compute p m)
    with assms(2) show ?thesis unfolding no_sleeper_def by (auto dest: set_update_cases)
  next
    case (report p bf)
    from threads_signal_jobDone[OF report(4)] have t: "threads s' = (threads s)[v := W_GetJob]" by simp
    have q: "jobQueue (buffer s') = jobQueue (buffer s)"
      using report(4) jobCompleted_queue[OF report(3)]
      by (cases rule: signal_jobDone_cases) simp_all
    from assms(2) t q show ?thesis unfolding no_sleeper_def by (auto dest: set_update_cases)
  qed
next
  case (Caller c k)
  with assms(1) have "multiply_step c k s = Next s'" by simp
  then show ?thesis
  proof (cases rule: multiply_step_cases)
    case (start a b cc d)
    with assms(2) show ?thesis unfolding no_sleeper_def by simp
  next
    case (register a b cc d)
    with assms(2) show ?thesis unfolding no_sleeper_def by simp
  next
    case (send a b cc d cid bi bj)
    let ?t = "s\<lparr>calls := (calls s)[c := next_send a b cc d cid bi bj]\<rparr>"
    have eq: "s\<lparr>buffer := (buffer s)\<lparr>jobQueue := jobQueue (buffer s) @ [job a b cc d cid bi bj]\<rparr>,
           calls := (calls s)[c := next_send a b cc d cid bi bj]\<rparr> =
        ?t\<lparr>buffer := (buffer ?t)\<lparr>jobQueue := jobQueue (buffer ?t) @ [job a b cc d cid bi bj]\<rparr>\<rparr>"
      by simp
    from assms(2) have "no_sleeper ?t" unfolding no_sleeper_def by simp
    from no_sleeper_signal_jobAvailable[OF send(3)[unfolded eq] this] show ?thesis by simp
  next
    case (block cid)
    with assms(2) show ?thesis unfolding no_sleeper_def by simp
  next
    case (return cid)
    with assms(2) show ?thesis unfolding no_sleeper_def by simp
  qed
next
  case (Destructor k)
  with assms(1) have ds: "destructor_step k s = Next s'" by simp
  show ?thesis
  proof (cases "destructor s")
    case D_Terminate
    with ds assms(2) show ?thesis unfolding destructor_step_def no_sleeper_def terminate_flag_def by auto
  next
    case (D_Signal i)
    let ?t = "s\<lparr>destructor := (if i + 1 < terminate_signals then D_Signal (i + 1) else D_Join)\<rparr>"
    from D_Signal ds have sg: "signal_jobAvailable k ?t = Some s'"
      unfolding destructor_step_def by (simp add: of_option_Next_iff)
    have eq: "?t = ?t\<lparr>buffer := (buffer ?t)\<lparr>jobQueue := jobQueue (buffer ?t) @ []\<rparr>\<rparr>" by simp
    from assms(2) have "no_sleeper ?t" unfolding no_sleeper_def by simp
    from no_sleeper_signal_jobAvailable[where js = "[]" and s = ?t, OF _ this] sg show ?thesis by simp
  next
    case D_Join
    with ds assms(2) show ?thesis unfolding destructor_step_def no_sleeper_def by (auto split: if_splits)
  next
    case D_Done
    with ds show ?thesis unfolding destructor_step_def by simp
  qed
next
  case (Call a b c d)
  with assms show ?thesis by (auto simp: multiply_def no_sleeper_def)
next
  case (Call3 a b c)
  with assms show ?thesis by (auto simp: multiply_def multiply3_def no_sleeper_def)
qed

lemma no_sleeper_run:
  "run es s = Next s' \<Longrightarrow> no_sleeper s \<Longrightarrow> no_sleeper s'"
proof (induction es arbitrary: s)
  case Nil
  then show ?case by simp
next
  case (Cons e es)
  from Cons.prems(1) obtain s1 where s1: "step e s = Next s1" "run es s1 = Next s'"
    by (cases "step e s") simp_all
  from Cons.IH[OF s1(2) no_sleeper_step[OF s1(1) Cons.prems(2)]] show ?case .
qed

section \<open>A signal wakes one worker\<close>

lemma sleepers_update:
  "w < length (threads s) \<Longrightarrow>
   sleepers (s\<lparr>threads := (threads s)[w := t]\<rparr>) =
     sleepers s - (if threads s ! w = W_Blocked then 1 else 0) + (if t = W_Blocked then 1 else 0)"
  unfolding sleepers_def by (simp add: filter_length_update)

lemma sleepers_signal_jobAvailable:
  assumes "signal_jobAvailable k s = Some s'"
  shows "sleepers s - 1 \<le> sleepers s' \<and> calls s' = calls s \<and> destructor s' = destructor s \<and>
    (list_all (\<lambda>t. t = W_Exited) (threads s') \<longrightarrow> sleepers s' = 0)"
proof -
  have z: "sleepers s' = 0" if "list_all (\<lambda>t. t = W_Exited) (threads s')"
    using that unfolding sleepers_def by (auto simp: list_all_iff filter_empty_conv)
  from assms show ?thesis
  proof (cases rule: signal_jobAvailable_cases)
    case nobody
    with z show ?thesis by simp
  next
    case again
    with z show ?thesis by simp
  next
    case stop
    from stop(5) sleepers_update[OF stop(1), of W_Exited] stop(2) have "sleepers s' = sleepers s - 1"
      by (simp add: sleepers_def)
    with stop(5) z show ?thesis by simp
  next
    case (take p q)
    from take(4) sleepers_update[OF take(1), of "W_Compute p"] take(2) have "sleepers s' = sleepers s - 1"
      by (simp add: sleepers_def)
    with take(4) z show ?thesis by simp
  qed
qed

lemma not_all_exited:
  assumes "w < length ts" "ts ! w \<noteq> W_Exited"
  shows "\<not> list_all (\<lambda>t. t = W_Exited) ts"
proof
  assume "list_all (\<lambda>t. t = W_Exited) ts"
  moreover from assms(1) have "ts ! w \<in> set ts" by (rule nth_mem)
  ultimately have "ts ! w = W_Exited" by (simp add: list_all_iff)
  with assms(2) show False by simp
qed

lemma teardown_worker:
  assumes "workerThread w k s = Next s'" "teardown_ok s"
  shows "sleepers s \<le> sleepers s' \<and> destructor s' = destructor s \<and> teardown_ok s'"
  using assms(1)
proof (cases rule: workerThread_cases)
  case block
  from block(1,2) have ne: "\<not> list_all (\<lambda>t. t = W_Exited) (threads s)"
    by (intro not_all_exited[of w]) simp_all
  have "\<not> list_all (\<lambda>t. t = W_Exited) ((threads s)[w := W_Blocked])"
    using block(1) by (intro not_all_exited[of w]) simp_all
  with block sleepers_update[OF block(1), of W_Blocked] assms(2) ne show ?thesis
    unfolding teardown_ok_def by auto
next
  case exit
  from exit(1,2) have ne: "\<not> list_all (\<lambda>t. t = W_Exited) (threads s)"
    by (intro not_all_exited[of w]) simp_all
  with exit sleepers_update[OF exit(1), of W_Exited] assms(2) show ?thesis
    unfolding teardown_ok_def by auto
next
  case (take p q)
  from take(1,2) have ne: "\<not> list_all (\<lambda>t. t = W_Exited) (threads s)"
    by (intro not_all_exited[of w]) simp_all
  with take sleepers_update[OF take(1), of "W_Compute p"] assms(2) show ?thesis
    unfolding teardown_ok_def sleepers_def by auto
next
  case (compute p m)
  from compute(1,2) have ne: "\<not> list_all (\<lambda>t. t = W_Exited) (threads s)"
    by (intro not_all_exited[of w]) simp_all
  with compute sleepers_update[OF compute(1), of "W_Report p"] assms(2) show ?thesis
    unfolding teardown_ok_def sleepers_def by auto
next
  case (report p bf)
  from report(1,2) have ne: "\<not> list_all (\<lambda>t. t = W_Exited) (threads s)"
    by (intro not_all_exited[of w]) simp_all
  let ?t = "s\<lparr>buffer := bf, threads := (threads s)[w := W_GetJob]\<rparr>"
  from assms(2) have nb: "\<not> list_ex is_blocked_call (calls ?t)"
    unfolding teardown_ok_def by (auto simp: list_all_iff list_ex_iff is_blocked_call_def)
  from report(4) nb have s': "s' = ?t"
    unfolding signal_jobDone_def by simp
  from sleepers_update[OF report(1), of W_GetJob] report(2)
  have "sleepers (s\<lparr>threads := (threads s)[w := W_GetJob]\<rparr>) = sleepers s" by simp
  then have "sleepers ?t = sleepers s" unfolding sleepers_def by simp
  with s' assms(2) ne show ?thesis unfolding teardown_ok_def by auto
qed

lemma teardown_destructor:
  assumes "destructor_step k s = Next s'" "teardown_ok s"
  shows "sleepers s - signals_left (destructor s) \<le> sleepers s' - signals_left (destructor s') \<and> teardown_ok s'"
proof (cases "destructor s")
  case D_Terminate
  with assms show ?thesis
    unfolding destructor_step_def teardown_ok_def sleepers_def signals_left_def terminate_signals_def
    by auto
next
  case (D_Signal i)
  let ?t = "s\<lparr>destructor := (if i + 1 < terminate_signals then D_Signal (i + 1) else D_Join)\<rparr>"
  from D_Signal assms(1) have sg: "signal_jobAvailable k ?t = Some s'"
    unfolding destructor_step_def by (simp add: of_option_Next_iff)
  from sleepers_signal_jobAvailable[OF sg]
  have a: "sleepers ?t - 1 \<le> sleepers s'" "calls s' = calls s" "destructor s' = destructor ?t" by simp_all
  have "sleepers ?t = sleepers s" unfolding sleepers_def by simp
  with a(1) have b: "sleepers s - 1 \<le> sleepers s'" by simp
  have c: "signals_left (destructor ?t) = signals_left (D_Signal i) - 1"
    unfolding signals_left_def terminate_signals_def by auto
  from a(3) have nd: "destructor s' \<noteq> D_Done" by auto
  from b c a(2,3) D_Signal assms(2) nd show ?thesis unfolding teardown_ok_def by simp
next
  case D_Join
  with assms show ?thesis
    unfolding destructor_step_def teardown_ok_def sleepers_def signals_left_def
    by (auto split: if_splits)
next
  case D_Done
  with assms(1) show ?thesis unfolding destructor_step_def by simp
qed

lemma teardown_run:
  fixes s :: "('a::{zero,plus,times}) system"
  shows "run es s = Next s' \<Longrightarrow> list_all teardown_event es \<Longrightarrow> teardown_ok s \<Longrightarrow>
   sleepers s - signals_left (destructor s) \<le> sleepers s' - signals_left (destructor s') \<and> teardown_ok s'"
proof (induction es arbitrary: s)
  case Nil
  then show ?case by simp
next
  case (Cons e es)
  from Cons.prems(1) obtain s1 where s1: "step e s = Next s1" "run es s1 = Next s'"
    by (cases "step e s") simp_all
  from Cons.prems(2) have te: "teardown_event e" and tes: "list_all teardown_event es" by simp_all
  have "sleepers s - signals_left (destructor s) \<le> sleepers s1 - signals_left (destructor s1) \<and> teardown_ok s1"
  proof (cases e)
    case (Worker w k)
    with s1(1) teardown_worker[of w k s s1] Cons.prems(3) show ?thesis by simp
  next
    case (Destructor k)
    with s1(1) teardown_destructor[of k s s1] Cons.prems(3) show ?thesis by simp
  qed (use te in \<open>simp_all add: teardown_event_def\<close>)
  with Cons.IH[OF s1(2) tes] show ?case by fastforce
qed

lemma stuck:
  fixes s :: "('a::{zero,plus,times}) system"
  assumes "list_all (\<lambda>t. t = W_Blocked \<or> t = W_Exited) (threads s)" "W_Blocked \<in> set (threads s)"
    "list_all (\<lambda>c. c = M_Returned) (calls s)" "destructor s = D_Join"
  shows "step (Worker w k) s = Disabled \<and> step (Caller c k) s = Disabled \<and> step (Destructor k) s = Disabled"
proof -
  have "workerThread w k s = Disabled"
  proof (cases "w < length (threads s)")
    case True
    with assms(1) have "threads s ! w = W_Blocked \<or> threads s ! w = W_Exited"
      by (auto simp: list_all_iff)
    with True show ?thesis unfolding workerThread_def by auto
  next
    case False
    then show ?thesis unfolding workerThread_def by simp
  qed
  moreover have "multiply_step c k s = Disabled"
  proof (cases "c < length (calls s)")
    case True
    with assms(3) have "calls s ! c = M_Returned" by (auto simp: list_all_iff)
    with True show ?thesis unfolding multiply_step_def by simp
  next
    case False
    then show ?thesis unfolding multiply_step_def by simp
  qed
  moreover have "destructor_step k s = Disabled"
    using assms(2,4) unfolding destructor_step_def by (auto simp: list_all_iff)
  ultimately show ?thesis by simp
qed

section \<open>The product\<close>



section \<open>The grid does not change the result\<close>

text \<open>
  C2. The result does not depend on the grid dimension. Take two calls of
  \<^verbatim>\<open>multiply(A, B, C, d)\<close> on the same matrices \<open>A\<close> and \<open>B\<close> of size \<open>n\<close>, one with the grid
  dimension \<open>d1\<close> and one with \<open>d2\<close>, both positive divisors of \<open>n\<close> (1 and \<open>n\<close> among
  them), each made on a quiescent engine (the two engines may differ in their workers,
  their past and their schedules \<open>es1\<close> and \<open>es2\<close>), with \<open>C\<close> another object than \<open>A\<close>
  and \<open>B\<close>. When both calls have returned, every cell \<^verbatim>\<open>element(x, y)\<close> of \<open>C\<close> with
  \<open>0 \<le> x, y < n\<close> has the same value after both: the value that the loop over
  \<open>k = 0, \<dots>, n - 1\<close> computes, adding from the left. The loop over the blocks \<open>blockK\<close>
  and the loop inside a block together visit \<open>k = 0, \<dots>, n - 1\<close> in this order whatever
  the grid is, so this needs no law of arithmetic: it holds for every element type
  with 0, + and *, floating point types included.
\<close>

theorem multiply_grid_invariant:
  fixes s0 s0' :: "('a::{zero,plus,times}) system"
  assumes q: "quiescent s0" "quiescent s0'"
    and ab: "mem s0' a = mem s0 a" "mem s0' b = mem s0 b"
    and d: "0 < d1" "0 < d2" and dv: "d1 dvd int (msize (mem s0 a))" "d2 dvd int (msize (mem s0 a))"
    and ca: "c \<noteq> a" and cb: "c \<noteq> b"
    and ov1: "nextComputationId (buffer s0) \<noteq> INT_MAX" "0 \<le> nbJobFinished (buffer s0)"
      "nbJobFinished (buffer s0) + d1 * d1 \<le> INT_MAX"
    and ov2: "nextComputationId (buffer s0') \<noteq> INT_MAX" "0 \<le> nbJobFinished (buffer s0')"
      "nbJobFinished (buffer s0') + d2 * d2 \<le> INT_MAX"
    and es: "list_all engine_event es1" "list_all engine_event es2"
    and r1: "run es1 (multiply a b c d1 s0) = Next s1" "calls s1 ! length (calls s0) = M_Returned"
    and r2: "run es2 (multiply a b c d2 s0') = Next s2" "calls s2 ! length (calls s0') = M_Returned"
    and x: "0 \<le> x" "x < int (msize (mem s0 a))" and y: "0 \<le> y" "y < int (msize (mem s0 a))"
  shows "element (mem s1 c) x y = element (mem s2 c) x y \<and>
    element (mem s1 c) x y = kernel_value (mem s0 a) (mem s0 b) (int (msize (mem s0 a))) x y"
proof -
  let ?n = "int (msize (mem s0 a))"
  from dv have full: "d1 * (?n div d1) = ?n" "d2 * (?n div d2) = ?n" by simp_all
  from call_analysis(4)[OF q(1) d(1) ca cb ov1 es(1) r1 y x] full(1) x y
  have 1: "element (mem s1 c) x y = kernel_value (mem s0 a) (mem s0 b) ?n x y" by simp
  from x y ab have x': "0 \<le> x" "x < int (msize (mem s0' a))" and y': "0 \<le> y" "y < int (msize (mem s0' a))"
    by simp_all
  from call_analysis(4)[OF q(2) d(2) ca cb ov2 es(2) r2 y' x'] full(2) x y ab
  have 2: "element (mem s2 c) x y = kernel_value (mem s0 a) (mem s0 b) ?n x y" by simp
  from 1 2 show ?thesis by simp
qed

theorem multiply_grid_invariant_witness:
  "\<exists>es1 es2 s1 s2. list_all engine_event es1 \<and> list_all engine_event es2 \<and>
     run es1 (multiply 0 1 2 1 (ThreadedMatrixMultiplier 1 0 example_memory)) = Next s1 \<and>
     calls s1 ! 0 = M_Returned \<and>
     run es2 (multiply 0 1 2 2 (ThreadedMatrixMultiplier 3 0 example_memory)) = Next s2 \<and>
     calls s2 ! 0 = M_Returned \<and>
     element (mem s1 2) 0 0 = element (mem s2 2) 0 0 \<and> element (mem s1 2) 0 1 = element (mem s2 2) 0 1 \<and>
     element (mem s1 2) 1 0 = element (mem s2 2) 1 0 \<and> element (mem s1 2) 1 1 = element (mem s2 2) 1 1 \<and>
     element (mem s1 2) 0 0 = 6 \<and> element (mem s1 2) 0 1 = 14 \<and>
     element (mem s1 2) 1 0 = 8 \<and> element (mem s1 2) 1 1 = 18"
proof -
  let ?S = "ThreadedMatrixMultiplier 1 0 example_memory :: int system"
  let ?S' = "ThreadedMatrixMultiplier 3 0 example_memory :: int system"
  have q: "quiescent ?S" "quiescent ?S'" by code_simp+
  have ts: "threads ?S \<noteq> []" "threads ?S' \<noteq> []" by code_simp+
  have ab: "mem ?S' 0 = mem ?S 0" "mem ?S' 1 = mem ?S 1" by (simp_all add: ThreadedMatrixMultiplier_def)
  have n: "int (msize (mem ?S 0)) = 2" by (simp add: ThreadedMatrixMultiplier_def example_memory_def)
  have d: "(0::int) < 1" "(0::int) < 2" by simp_all
  have dv: "(1::int) dvd int (msize (mem ?S 0))" "(2::int) dvd int (msize (mem ?S 0))" unfolding n by simp_all
  have ca: "(2::nat) \<noteq> 0" and cb: "(2::nat) \<noteq> 1" by simp_all
  have ov1: "nextComputationId (buffer ?S) \<noteq> INT_MAX" "0 \<le> nbJobFinished (buffer ?S)"
    "nbJobFinished (buffer ?S) + 1 * 1 \<le> INT_MAX"
    by (simp_all add: ThreadedMatrixMultiplier_def new_Buffer_def INT_MAX_def)
  have ov2: "nextComputationId (buffer ?S') \<noteq> INT_MAX" "0 \<le> nbJobFinished (buffer ?S')"
    "nbJobFinished (buffer ?S') + 2 * 2 \<le> INT_MAX"
    by (simp_all add: ThreadedMatrixMultiplier_def new_Buffer_def INT_MAX_def)
  have l: "length (calls ?S) = 0" "length (calls ?S') = 0" by (simp_all add: ThreadedMatrixMultiplier_def)
  from call_returns[OF q(1) ts(1) d(1) ca cb ov1] obtain es1 s1 where
    1: "list_all engine_event es1" "run es1 (multiply 0 1 2 1 ?S) = Next s1" "calls s1 ! length (calls ?S) = M_Returned"
    by blast
  from call_returns[OF q(2) ts(2) d(2) ca cb ov2] obtain es2 s2 where
    2: "list_all engine_event es2" "run es2 (multiply 0 1 2 2 ?S') = Next s2" "calls s2 ! length (calls ?S') = M_Returned"
    by blast
  note t = multiply_grid_invariant[OF q ab d dv ca cb ov1 ov2 1(1) 2(1) 1(2,3) 2(2,3), unfolded n]
  have m: "mem ?S = example_memory" by (simp add: ThreadedMatrixMultiplier_def)
  have k: "kernel_value (example_memory 0) (example_memory 1) 2 0 0 = 6"
    "kernel_value (example_memory 0) (example_memory 1) 2 0 1 = 14"
    "kernel_value (example_memory 0) (example_memory 1) 2 1 0 = 8"
    "kernel_value (example_memory 0) (example_memory 1) 2 1 1 = 18"
    by code_simp+
  have "element (mem s1 2) 0 0 = element (mem s2 2) 0 0 \<and> element (mem s1 2) 0 0 = 6"
    using t[of 0 0] unfolding m k by simp
  moreover have "element (mem s1 2) 0 1 = element (mem s2 2) 0 1 \<and> element (mem s1 2) 0 1 = 14"
    using t[of 0 1] unfolding m k by simp
  moreover have "element (mem s1 2) 1 0 = element (mem s2 2) 1 0 \<and> element (mem s1 2) 1 0 = 8"
    using t[of 1 0] unfolding m k by simp
  moreover have "element (mem s1 2) 1 1 = element (mem s2 2) 1 1 \<and> element (mem s1 2) 1 1 = 18"
    using t[of 1 1] unfolding m k by simp
  ultimately show ?thesis using 1 2 unfolding l by blast
qed

section \<open>The signals of terminate\<close>

text \<open>
  C3, as the code has it. \<^verbatim>\<open>terminate\<close> sets the flag and then performs
  \<^verbatim>\<open>signal(jobAvailable)\<close> 100 times; a signal wakes one waiting worker. During the
  teardown of an engine with no call in flight, whatever the schedule \<open>es\<close> of the
  workers and the destructor is, the number of workers that wait in \<^verbatim>\<open>getJob\<close> minus the
  number of signals still to come never goes down. So when more workers wait than
  signals are left (more than 100 when the destructor begins), some worker still waits
  in every later state, nothing will wake it, the destructor is never done, and once
  it has reached its \<^verbatim>\<open>join\<close> it stays there: not every waiting thread is woken.
\<close>

theorem terminate_wakes_at_most_100:
  fixes s :: "('a::{zero,plus,times}) system"
  assumes ok: "teardown_ok s" and es: "list_all teardown_event es" and r: "run es s = Next s'"
  shows "signals_left D_Terminate = 100 \<and>
    sleepers s - signals_left (destructor s) \<le> sleepers s' - signals_left (destructor s') \<and>
    (signals_left (destructor s) < sleepers s \<longrightarrow>
       W_Blocked \<in> set (threads s') \<and> destructor s' \<noteq> D_Done \<and>
       (destructor s' = D_Join \<longrightarrow> step (Destructor k) s' = Disabled))"
proof -
  from teardown_run[OF r es ok]
  have le: "sleepers s - signals_left (destructor s) \<le> sleepers s' - signals_left (destructor s')"
    and ok': "teardown_ok s'" by simp_all
  have nn: "0 \<le> signals_left (destructor s')"
    unfolding signals_left_def terminate_signals_def by (cases "destructor s'") auto
  have c: "W_Blocked \<in> set (threads s') \<and> destructor s' \<noteq> D_Done \<and>
       (destructor s' = D_Join \<longrightarrow> step (Destructor k) s' = Disabled)"
    if "signals_left (destructor s) < sleepers s"
  proof -
    from that le nn have pos: "0 < sleepers s'" by linarith
    then have "filter (\<lambda>t. t = W_Blocked) (threads s') \<noteq> []" unfolding sleepers_def by auto
    then have b: "W_Blocked \<in> set (threads s')" by (auto simp: filter_empty_conv)
    then have ne: "\<not> list_all (\<lambda>t. t = W_Exited) (threads s')" by (auto simp: list_all_iff)
    with ok' have nd: "destructor s' \<noteq> D_Done" unfolding teardown_ok_def by auto
    from ne have "destructor s' = D_Join \<longrightarrow> step (Destructor k) s' = Disabled"
      by (auto simp: destructor_step_def)
    with b nd show ?thesis by simp
  qed
  have "signals_left D_Terminate = 100" unfolding signals_left_def terminate_signals_def by simp
  with le c show ?thesis by blast
qed

theorem terminate_wakes_at_most_100_witness:
  "(case run (idle_schedule 101) (ThreadedMatrixMultiplier 101 0 tiny_memory) of
      Next s \<Rightarrow> threads s = replicate 101 W_Blocked \<and> destructor s = D_Terminate \<and> sleepers s = 101 \<and>
        (case run terminate_schedule s of
           Next s' \<Rightarrow> isTerminating (buffer s') \<and> threads s' = replicate 100 W_Exited @ [W_Blocked] \<and>
             destructor s' = D_Join \<and> W_Blocked \<in> set (threads s') \<and>
             step (Destructor 0) s' = Disabled \<and> (case step (Worker 100 0) s' of Disabled \<Rightarrow> True | _ \<Rightarrow> False)
         | _ \<Rightarrow> False)
    | _ \<Rightarrow> False)"
proof -
  let ?E = "ThreadedMatrixMultiplier 101 0 tiny_memory :: int system"
  have e: "case run (idle_schedule 101) ?E of
      Next s \<Rightarrow> threads s = replicate 101 W_Blocked \<and> destructor s = D_Terminate \<and> sleepers s = 101 \<and>
        calls s = [] \<and>
        (case run terminate_schedule s of
           Next s' \<Rightarrow> isTerminating (buffer s') \<and> threads s' = replicate 100 W_Exited @ [W_Blocked] \<and>
             destructor s' = D_Join \<and> (case step (Worker 100 0) s' of Disabled \<Rightarrow> True | _ \<Rightarrow> False)
         | _ \<Rightarrow> False)
    | _ \<Rightarrow> False" by code_simp
  then obtain s where r1: "run (idle_schedule 101) ?E = Next s"
    and s: "threads s = replicate 101 W_Blocked" "destructor s = D_Terminate" "sleepers s = 101" "calls s = []"
    and c: "case run terminate_schedule s of
           Next s' \<Rightarrow> isTerminating (buffer s') \<and> threads s' = replicate 100 W_Exited @ [W_Blocked] \<and>
             destructor s' = D_Join \<and> (case step (Worker 100 0) s' of Disabled \<Rightarrow> True | _ \<Rightarrow> False)
         | _ \<Rightarrow> False"
    by (cases "run (idle_schedule 101) ?E") simp_all
  from c obtain s' where r2: "run terminate_schedule s = Next s'"
    and s': "isTerminating (buffer s')" "threads s' = replicate 100 W_Exited @ [W_Blocked]"
      "destructor s' = D_Join" "(case step (Worker 100 0) s' of Disabled \<Rightarrow> True | _ \<Rightarrow> False)"
    by (cases "run terminate_schedule s") simp_all
  have ok: "teardown_ok s" unfolding teardown_ok_def using s(2,4) by simp
  have es: "list_all teardown_event terminate_schedule" by code_simp
  from terminate_wakes_at_most_100[OF ok es r2, of 0] s(2,3) s'(3)
  have "W_Blocked \<in> set (threads s')" "step (Destructor 0) s' = Disabled" by simp_all
  with s s' show ?thesis by (simp add: r1 r2)
qed

section \<open>Jobs and the end of the workers\<close>

text \<open>
  C4. \<^verbatim>\<open>getJob\<close> returns \<^verbatim>\<open>false\<close> if and only if the buffer is terminating and the queue
  is empty; it waits if and only if the queue is empty and the buffer is not
  terminating; when the queue holds a job it returns the job at the head, terminating
  or not. No step of any thread, the destructor included, drops a job: the number of
  times a job is in flight (in the queue or in the hands of a worker) changes only by
  a call that enqueues it and by the worker that reports it after \<^verbatim>\<open>computeBlock\<close>. A
  worker leaves its loop only from \<^verbatim>\<open>getJob\<close>, with the buffer terminating and the queue
  empty; a worker at \<^verbatim>\<open>getJob\<close> that finds a job takes it; a worker that has taken a
  job computes it, reports it and comes back to \<^verbatim>\<open>getJob\<close>; and from the construction
  of the engine on, no worker waits in \<^verbatim>\<open>getJob\<close> while the queue holds a job.
\<close>

theorem no_job_dropped:
  fixes s :: "('a::{zero,plus,times}) system"
  shows
  "(getJob b = Return None b' \<longleftrightarrow> isTerminating b \<and> jobQueue b = [] \<and> b' = b) \<and>
   (getJob b = Wait b' \<longleftrightarrow> \<not> isTerminating b \<and> jobQueue b = [] \<and> b' = b) \<and>
   (jobQueue b \<noteq> [] \<longrightarrow>
      getJob b = Return (Some (hd (jobQueue b))) (b\<lparr>jobQueue := tl (jobQueue b)\<rparr>)) \<and>
   (step e s = Next s' \<longrightarrow>
      pending p s' = pending p s + (if enqueues e s p then 1 else 0) - (if completes e s p then 1 else 0) \<and>
      (w < length (threads s) \<and> threads s' ! w = W_Exited \<and> threads s ! w \<noteq> W_Exited \<longrightarrow>
         (threads s ! w = W_GetJob \<or> threads s ! w = W_Blocked) \<and>
         isTerminating (buffer s') \<and> jobQueue (buffer s') = []) \<and>
      (no_sleeper s \<longrightarrow> no_sleeper s')) \<and>
   (w < length (threads s) \<and> threads s ! w = W_GetJob \<and> jobQueue (buffer s) \<noteq> [] \<longrightarrow>
      step (Worker w k) s =
        Next (s\<lparr>buffer := (buffer s)\<lparr>jobQueue := tl (jobQueue (buffer s))\<rparr>,
                 threads := (threads s)[w := W_Compute (hd (jobQueue (buffer s)))]\<rparr>)) \<and>
   (w < length (threads s) \<and> threads s ! w = W_Compute p \<and> step (Worker w k) s = Next s' \<longrightarrow>
      threads s' ! w = W_Report p) \<and>
   (w < length (threads s) \<and> threads s ! w = W_Report p \<and> step (Worker w k) s = Next s' \<longrightarrow>
      threads s' ! w = W_GetJob \<and> nbJobFinished (buffer s') = nbJobFinished (buffer s) + 1) \<and>
   no_sleeper (ThreadedMatrixMultiplier n d m)"
proof (intro conjI impI)
  show "getJob b = Return None b' \<longleftrightarrow> isTerminating b \<and> jobQueue b = [] \<and> b' = b"
    unfolding getJob_def by auto
  show "getJob b = Wait b' \<longleftrightarrow> \<not> isTerminating b \<and> jobQueue b = [] \<and> b' = b"
    unfolding getJob_def by auto
  show "getJob b = Return (Some (hd (jobQueue b))) (b\<lparr>jobQueue := tl (jobQueue b)\<rparr>)"
    if "jobQueue b \<noteq> []"
    using that unfolding getJob_def by simp
  show "no_sleeper (ThreadedMatrixMultiplier n d m)"
    unfolding no_sleeper_def ThreadedMatrixMultiplier_def new_Buffer_def by simp
next
  assume st: "step e s = Next s'"
  show "pending p s' = pending p s + (if enqueues e s p then 1 else 0) - (if completes e s p then 1 else 0)"
    by (rule pending_step[OF st])
  show "no_sleeper s'" if "no_sleeper s" by (rule no_sleeper_step[OF st that])
  assume "w < length (threads s) \<and> threads s' ! w = W_Exited \<and> threads s ! w \<noteq> W_Exited"
  then have a: "w < length (threads s)" "threads s' ! w = W_Exited" "threads s ! w \<noteq> W_Exited" by simp_all
  from exit_step[OF st a]
  show "threads s ! w = W_GetJob \<or> threads s ! w = W_Blocked" "isTerminating (buffer s')"
    "jobQueue (buffer s') = []" by simp_all
next
  assume "w < length (threads s) \<and> threads s ! w = W_GetJob \<and> jobQueue (buffer s) \<noteq> []"
  then have a: "w < length (threads s)" "threads s ! w = W_GetJob" "jobQueue (buffer s) \<noteq> []" by simp_all
  from a(3) obtain p0 q where q: "jobQueue (buffer s) = p0 # q" by (cases "jobQueue (buffer s)") simp_all
  from a(1,2) q show "step (Worker w k) s =
        Next (s\<lparr>buffer := (buffer s)\<lparr>jobQueue := tl (jobQueue (buffer s))\<rparr>,
                 threads := (threads s)[w := W_Compute (hd (jobQueue (buffer s)))]\<rparr>)"
    by (simp add: workerThread_def getJob_take)
next
  assume "w < length (threads s) \<and> threads s ! w = W_Compute p \<and> step (Worker w k) s = Next s'"
  then have a: "w < length (threads s)" "threads s ! w = W_Compute p" "workerThread w k s = Next s'"
    by simp_all
  from a(3) a(1,2) show "threads s' ! w = W_Report p"
    by (cases rule: workerThread_cases) simp_all
next
  assume "w < length (threads s) \<and> threads s ! w = W_Report p \<and> step (Worker w k) s = Next s'"
  then have a: "w < length (threads s)" "threads s ! w = W_Report p" "workerThread w k s = Next s'"
    by simp_all
  from a(3) have "threads s' ! w = W_GetJob \<and> nbJobFinished (buffer s') = nbJobFinished (buffer s) + 1"
  proof (cases rule: workerThread_cases)
    case (report p0 bf)
    from threads_signal_jobDone[OF report(4)] a(1) have t: "threads s' ! w = W_GetJob" by simp
    from jobCompleted_Inr(1)[OF report(3)] have "nbJobFinished bf = nbJobFinished (buffer s) + 1" by simp
    moreover have "nbJobFinished (buffer s') = nbJobFinished bf"
      using report(4) by (cases rule: signal_jobDone_cases) simp_all
    ultimately show ?thesis using t by simp
  qed (use a(2) in simp_all)
  then show "threads s' ! w = W_GetJob" "nbJobFinished (buffer s') = nbJobFinished (buffer s) + 1"
    by simp_all
qed

theorem no_job_dropped_witness:
  "(case run drain_schedule (ThreadedMatrixMultiplier 1 0 tiny_memory) of
      Next s \<Rightarrow> isTerminating (buffer s) \<and> jobQueue (buffer s) = [job 0 1 2 1 0 0 0] \<and>
        threads s = [W_GetJob] \<and> pending (job 0 1 2 1 0 0 0) s = 1 \<and>
        (case step (Worker 0 0) s of
           Next s' \<Rightarrow> threads s' = [W_Compute (job 0 1 2 1 0 0 0)] \<and> jobQueue (buffer s') = [] \<and>
             pending (job 0 1 2 1 0 0 0) s' = 1
         | _ \<Rightarrow> False)
    | _ \<Rightarrow> False) \<and>
   (case run (drain_schedule @ replicate 4 (Worker 0 0)) (ThreadedMatrixMultiplier 1 0 tiny_memory) of
      Next s \<Rightarrow> threads s = [W_Exited] \<and> nbJobFinished (buffer s) = 1 \<and> jobQueue (buffer s) = []
    | _ \<Rightarrow> False)"
proof -
  let ?E = "ThreadedMatrixMultiplier 1 0 tiny_memory :: int system" and ?J = "job 0 1 2 1 0 0 0"
  have e1: "case run drain_schedule ?E of
      Next s \<Rightarrow> isTerminating (buffer s) \<and> jobQueue (buffer s) = [?J] \<and>
        threads s = [W_GetJob] \<and> pending ?J s = 1 \<and>
        (case step (Worker 0 0) s of
           Next s' \<Rightarrow> threads s' = [W_Compute ?J] \<and> jobQueue (buffer s') = []
         | _ \<Rightarrow> False)
    | _ \<Rightarrow> False" by code_simp
  then obtain s where r: "run drain_schedule ?E = Next s"
    and s: "isTerminating (buffer s)" "jobQueue (buffer s) = [?J]" "threads s = [W_GetJob]" "pending ?J s = 1"
    and c: "case step (Worker 0 0) s of
           Next s' \<Rightarrow> threads s' = [W_Compute ?J] \<and> jobQueue (buffer s') = [] | _ \<Rightarrow> False"
    by (cases "run drain_schedule ?E") simp_all
  from c obtain s' where st: "step (Worker 0 0) s = Next s'"
    and s': "threads s' = [W_Compute ?J]" "jobQueue (buffer s') = []"
    by (cases "step (Worker 0 0) s") simp_all
  from no_job_dropped[where e = "Worker 0 0" and s = s and s' = s' and p = ?J] st
  have "pending ?J s' = pending ?J s + (if enqueues (Worker 0 0) s ?J then 1 else 0) -
      (if completes (Worker 0 0) s ?J then 1 else 0)" by blast
  with s(3,4) have p': "pending ?J s' = 1" by (simp add: enqueues_def completes_def)
  have e2: "case run (drain_schedule @ replicate 4 (Worker 0 0)) ?E of
      Next s \<Rightarrow> threads s = [W_Exited] \<and> nbJobFinished (buffer s) = 1 \<and> jobQueue (buffer s) = []
    | _ \<Rightarrow> False" by code_simp
  show ?thesis unfolding r using s st s' p' e2 by simp
qed

section \<open>A grid that does not divide the size\<close>




section \<open>The identifiers of the computations\<close>

text \<open>
  C7. \<^verbatim>\<open>startNewComputation\<close> returns the value of \<^verbatim>\<open>nextComputationId\<close>, adds one to it
  and creates the two entries of the new identifier; the call of \<^verbatim>\<open>multiply\<close> that made
  it carries this identifier from then on. Along every schedule \<open>es\<close> of the system from
  any state \<open>s\<close> (calls of \<^verbatim>\<open>multiply\<close> that overlap, workers, the destructor), the
  identifiers handed out are, in the order in which they are handed out, the
  consecutive integers from the value the counter had in \<open>s\<close>: each one is greater than
  all those handed out before it, so no two are the same. A schedule runs as long as
  the counter stays below \<^verbatim>\<open>INT_MAX\<close>, where the increment in \<^verbatim>\<open>startNewComputation\<close> is
  undefined.
\<close>

theorem computation_ids_increase:
  fixes s :: "('a::{zero,plus,times}) system"
  shows "(startNewComputation b t = Inr (cid, b') \<longrightarrow>
       cid = nextComputationId b \<and> nextComputationId b' = cid + 1 \<and>
       jobsFinishedPerComputation b' cid = Some 0 \<and> totalJobsPerComputation b' cid = Some t) \<and>
    (step (Caller c k) s = Next s1 \<and> issued_by (Caller c k) s = [cid] \<longrightarrow>
       cid = nextComputationId (buffer s) \<and>
       ((\<exists>a b cc d. calls s1 ! c = M_Send a b cc d cid 0 0) \<or> calls s1 ! c = M_Wait cid)) \<and>
    (run es s = Next s' \<longrightarrow>
       issued es s = map (\<lambda>i. nextComputationId (buffer s) + int i) [0..<length (issued es s)] \<and>
       nextComputationId (buffer s') = nextComputationId (buffer s) + int (length (issued es s)) \<and>
       sorted_wrt (<) (issued es s) \<and> distinct (issued es s) \<and>
       (\<forall>i \<in> set (issued es s). nextComputationId (buffer s) \<le> i \<and> i < nextComputationId (buffer s')))"
proof (intro conjI impI)
  assume "startNewComputation b t = Inr (cid, b')"
  then have "nextComputationId b \<noteq> INT_MAX \<and> cid = nextComputationId b \<and>
      b' = b\<lparr>nextComputationId := nextComputationId b + 1,
               jobsFinishedPerComputation := (jobsFinishedPerComputation b)(nextComputationId b \<mapsto> 0),
               totalJobsPerComputation := (totalJobsPerComputation b)(nextComputationId b \<mapsto> t)\<rparr>"
    unfolding startNewComputation_def by (auto split: if_splits)
  then show "cid = nextComputationId b" "nextComputationId b' = cid + 1"
    "jobsFinishedPerComputation b' cid = Some 0" "totalJobsPerComputation b' cid = Some t"
    by simp_all
next
  assume a: "step (Caller c k) s = Next s1 \<and> issued_by (Caller c k) s = [cid]"
  then have m: "multiply_step c k s = Next s1" by simp
  from multiply_step_next[OF m] a
  show "cid = nextComputationId (buffer s)"
    "(\<exists>a b cc d. calls s1 ! c = M_Send a b cc d cid 0 0) \<or> calls s1 ! c = M_Wait cid"
    by (auto split: if_splits)
next
  assume r: "run es s = Next s'"
  let ?n = "nextComputationId (buffer s)" and ?l = "length (issued es s)"
  from issued_range[OF r] show eq: "issued es s = map (\<lambda>i. ?n + int i) [0..<?l]"
    and nx: "nextComputationId (buffer s') = ?n + int ?l" by simp_all
  have "sorted_wrt (<) (map (\<lambda>i. ?n + int i) [0..<?l])" by (simp add: sorted_wrt_map)
  with eq show "sorted_wrt (<) (issued es s)" by simp
  have "distinct (map (\<lambda>i. ?n + int i) [0..<?l])" by (simp add: distinct_map inj_on_def)
  with eq show "distinct (issued es s)" by simp
  have "\<forall>i \<in> set (map (\<lambda>i. ?n + int i) [0..<?l]). ?n \<le> i \<and> i < ?n + int ?l" by auto
  with eq nx show "\<forall>i \<in> set (issued es s). ?n \<le> i \<and> i < nextComputationId (buffer s')" by simp
qed

theorem computation_ids_increase_witness:
  "issued two_calls (ThreadedMatrixMultiplier 1 0 tiny_memory) = [0, 1] \<and>
   sorted_wrt (<) (issued two_calls (ThreadedMatrixMultiplier 1 0 tiny_memory)) \<and>
   distinct (issued two_calls (ThreadedMatrixMultiplier 1 0 tiny_memory)) \<and>
   (case run two_calls (ThreadedMatrixMultiplier 1 0 tiny_memory) of
      Next s \<Rightarrow> nextComputationId (buffer s) = 2 \<and> calls s = [M_Send 0 1 2 1 1 0 0, M_Send 0 1 2 1 0 0 0]
    | _ \<Rightarrow> False)"
proof -
  let ?S = "ThreadedMatrixMultiplier 1 0 tiny_memory :: int system"
  have e: "case run two_calls ?S of
      Next s \<Rightarrow> nextComputationId (buffer s) = 2 \<and> calls s = [M_Send 0 1 2 1 1 0 0, M_Send 0 1 2 1 0 0 0]
    | _ \<Rightarrow> False" by code_simp
  then obtain s where r: "run two_calls ?S = Next s" and n: "nextComputationId (buffer s) = 2"
    and c: "calls s = [M_Send 0 1 2 1 1 0 0, M_Send 0 1 2 1 0 0 0]"
    by (cases "run two_calls ?S") simp_all
  have i: "issued two_calls ?S = [0, 1]" by code_simp
  from computation_ids_increase[where s = ?S and es = two_calls and s' = s] r
  have "sorted_wrt (<) (issued two_calls ?S) \<and> distinct (issued two_calls ?S)" by blast
  with i show ?thesis unfolding r using n c by simp
qed

section \<open>The overload of multiply without a grid dimension\<close>

text \<open>
  C9. The overload \<^verbatim>\<open>multiply(A, B, C)\<close> passes the engine's field
  \<^verbatim>\<open>nbBlocksPerRow\<close> on to the other overload, whatever the engine and whatever value
  \<open>d\<close> the constructor stored there; the constructor's default for it is 0. The first
  thing the other overload does is divide the size of \<open>A\<close> by its grid dimension, with
  nothing in between to stop it: in every state \<open>s\<close> whose field is 0 the first step of
  the call made by \<^verbatim>\<open>multiply(A, B, C)\<close> is the division \<open>n / 0\<close>. No step of any
  thread changes the field, so this holds in every state \<open>s\<close> that an engine built
  without a grid dimension reaches, after any schedule \<open>es\<close>, and in particular for a
  call on the fresh engine.
\<close>

theorem multiply3_default_divides_by_zero:
  "defaultNbBlocksPerRow (ThreadedMatrixMultiplier n d m) = d \<and>
   ThreadedMatrixMultiplier_default n m = ThreadedMatrixMultiplier n 0 m \<and>
   defaultNbBlocksPerRow (ThreadedMatrixMultiplier_default n m) = 0 \<and>
   multiply3 a b c s = multiply a b c (defaultNbBlocksPerRow s) s \<and>
   multiply3 a b c (ThreadedMatrixMultiplier n d m) =
     multiply a b c d (ThreadedMatrixMultiplier n d m) \<and>
   multiply3 a b c (ThreadedMatrixMultiplier_default n m) =
     multiply a b c 0 (ThreadedMatrixMultiplier_default n m) \<and>
   idiv (int (msize (mem s a))) 0 = Inl DivisionByZero \<and>
   (defaultNbBlocksPerRow s = 0 \<longrightarrow>
      multiply_step (length (calls s)) k (multiply3 a b c s) = Undefined DivisionByZero) \<and>
   (run es (ThreadedMatrixMultiplier_default n m) = Next s \<longrightarrow>
      defaultNbBlocksPerRow s = 0 \<and>
      run (es @ [Call3 a b c, Caller (length (calls s)) k]) (ThreadedMatrixMultiplier_default n m) =
        Undefined DivisionByZero) \<and>
   run [Call3 a b c, Caller 0 k] (ThreadedMatrixMultiplier_default n m) = Undefined DivisionByZero"
proof -
  have zero: "multiply_step (length (calls t)) k (multiply3 a b c t) = Undefined DivisionByZero"
    if "defaultNbBlocksPerRow t = 0" for t :: "'a system"
    using that by (rule multiply3_zero)
  have reach: "defaultNbBlocksPerRow s = 0 \<and>
      run (es @ [Call3 a b c, Caller (length (calls s)) k]) (ThreadedMatrixMultiplier_default n m) =
        Undefined DivisionByZero"
    if r: "run es (ThreadedMatrixMultiplier_default n m) = Next s"
  proof -
    have "defaultNbBlocksPerRow s = defaultNbBlocksPerRow (ThreadedMatrixMultiplier_default n m)"
      using r by (rule run_field)
    then have f: "defaultNbBlocksPerRow s = 0"
      by (simp add: ThreadedMatrixMultiplier_default_def ThreadedMatrixMultiplier_def)
    show ?thesis using f r zero [OF f] by (simp add: run_append)
  qed
  have first: "run [Call3 a b c, Caller 0 k] (ThreadedMatrixMultiplier_default n m) = Undefined DivisionByZero"
    by (simp add: ThreadedMatrixMultiplier_default_def ThreadedMatrixMultiplier_def multiply3_def
        multiply_def multiply_step_def idiv_def)
  show ?thesis
    using zero reach first
    by (simp add: ThreadedMatrixMultiplier_default_def ThreadedMatrixMultiplier_def multiply3_def idiv_def)
qed

theorem multiply3_default_divides_by_zero_witness:
  "run [Call 0 1 2 1] (ThreadedMatrixMultiplier_default 1 example_memory) =
     Next (multiply 0 1 2 1 (ThreadedMatrixMultiplier_default 1 example_memory)) \<and>
   defaultNbBlocksPerRow (multiply 0 1 2 1 (ThreadedMatrixMultiplier_default 1 example_memory)) = 0 \<and>
   multiply_step 1 0 (multiply3 0 1 2 (multiply 0 1 2 1 (ThreadedMatrixMultiplier_default 1 example_memory))) =
     Undefined DivisionByZero \<and>
   run [Call 0 1 2 1, Call3 0 1 2, Caller 1 0] (ThreadedMatrixMultiplier_default 1 example_memory) =
     Undefined DivisionByZero"
proof -
  define S where "S = multiply 0 1 2 1 (ThreadedMatrixMultiplier_default 1 example_memory)"
  have f: "defaultNbBlocksPerRow S = 0"
    by (simp add: S_def multiply_def ThreadedMatrixMultiplier_default_def ThreadedMatrixMultiplier_def)
  have l: "length (calls S) = 1"
    by (simp add: S_def multiply_def ThreadedMatrixMultiplier_default_def ThreadedMatrixMultiplier_def)
  have r: "run [Call 0 1 2 1] (ThreadedMatrixMultiplier_default 1 example_memory) = Next S"
    by (simp add: S_def)
  note t = multiply3_default_divides_by_zero
      [where s = S and es = "[Call 0 1 2 1]" and n = 1 and d = 0 and m = example_memory
         and a = 0 and b = 1 and c = 2 and k = 0]
  from t f have "multiply_step (length (calls S)) 0 (multiply3 0 1 2 S) = Undefined DivisionByZero"
    by blast
  then have x1: "multiply_step 1 0 (multiply3 0 1 2 S) = Undefined DivisionByZero"
    unfolding l .
  from t r have "run ([Call 0 1 2 1] @ [Call3 0 1 2, Caller (length (calls S)) 0])
      (ThreadedMatrixMultiplier_default 1 example_memory) = Undefined DivisionByZero"
    by blast
  then have x2: "run [Call 0 1 2 1, Call3 0 1 2, Caller 1 0]
      (ThreadedMatrixMultiplier_default 1 example_memory) = Undefined DivisionByZero"
    unfolding l append.simps .
  show ?thesis
    using r f x1 x2 unfolding S_def by (intro conjI)
qed

section \<open>Waiting for a computation that has no record\<close>

text \<open>
  C10. For an identifier \<open>cid\<close> that has an entry in neither map,
  \<^verbatim>\<open>waitAllJobsDone(cid)\<close> does not wait: reading the total creates the entry 0, the
  test \<open>0 < 0\<close> of the loop fails, and both entries are erased again, so the procedure
  returns at once and leaves the buffer as it found it.
\<close>

theorem waitAllJobsDone_no_record:
  "totalJobsPerComputation b cid = None \<Longrightarrow> jobsFinishedPerComputation b cid = None \<Longrightarrow>
   fst (waitAllJobsDone_enter b cid) = 0 \<and>
   totalJobsPerComputation (snd (waitAllJobsDone_enter b cid)) cid = Some 0 \<and>
   waitAllJobsDone b cid = Return () b"
  by (simp add: waitAllJobsDone_def waitAllJobsDone_enter_def waitAllJobsDone_loop_def
      subscript_def touch_def Let_def fun_upd_idem)

theorem waitAllJobsDone_no_record_witness:
  "fst (waitAllJobsDone_enter new_Buffer 7) = 0 \<and>
   totalJobsPerComputation (snd (waitAllJobsDone_enter new_Buffer 7)) 7 = Some 0 \<and>
   waitAllJobsDone new_Buffer 7 = Return () new_Buffer"
  using waitAllJobsDone_no_record [of new_Buffer 7] by (simp add: new_Buffer_def)

end
